theory Spec2Isabelle
  imports Complex_Main
begin

section \<open>CountMin sketch with dyadic ranges (countmin.c)\<close>

text \<open>
  The C file works on \<open>int64\<close> values. They are modelled as \<open>int\<close>, with every
  conversion the C performs written out: \<open>u64\<close> is the conversion to \<open>uint64\<close>
  (the value modulo \<open>2^64\<close>), \<open>s64\<close> the conversion back to \<open>int64\<close> (two's
  complement). A value is a legal \<open>int64\<close> when \<open>in64\<close> holds.
\<close>

definition u64 :: "int \<Rightarrow> int" where
  "u64 x = x mod 2 ^ 64"

definition s64 :: "int \<Rightarrow> int" where
  "s64 x = (x + 2 ^ 63) mod 2 ^ 64 - 2 ^ 63"

definition in64 :: "int \<Rightarrow> bool" where
  "in64 x = (- (2 ^ 63) \<le> x \<and> x < 2 ^ 63)"

subsection \<open>The constants of countmin.h\<close>

text \<open>
  \<open>countmin.h\<close> is not part of the sources at hand, so the constants it defines are
  parameters of the model: the domain bounds \<open>MINVAL\<close> and \<open>MAXVAL\<close>, the number of
  hash rows \<open>DEPTH\<close> and the number of counters per row \<open>NUMCOUNTERS\<close>.
  \<open>LONGBITS\<close> is \<open>sizeof(int64)*CHAR_BIT\<close> and \<open>RANGES\<close> is \<open>LONGBITS\<close>
  (the file's opening comment), so both are 64.
\<close>

record countmin_h =
  MINVAL :: int
  MAXVAL :: int
  DEPTH :: nat
  NUMCOUNTERS :: nat

definition LONGBITS :: nat where
  "LONGBITS = 64"

definition RANGES :: nat where
  "RANGES = LONGBITS"

text \<open>The two choices of domain bounds used in examples: the full \<open>int64\<close> range, and
  the range halved on each side.\<close>

definition full_h :: countmin_h where
  "full_h = \<lparr>MINVAL = - (2 ^ 63), MAXVAL = 2 ^ 63 - 1, DEPTH = 8, NUMCOUNTERS = 1024\<rparr>"

definition half_h :: countmin_h where
  "half_h = \<lparr>MINVAL = - (2 ^ 62), MAXVAL = 2 ^ 62 - 1, DEPTH = 8, NUMCOUNTERS = 1024\<rparr>"

subsection \<open>Errors\<close>

datatype error =
    MaxCountExceeded   \<comment> \<open>\<open>elog(ERROR, "maximum count exceeded in sketch")\<close>\<close>
  | OutsideAgg         \<comment> \<open>\<open>elog(ERROR, "destructive pass by reference outside agg")\<close>\<close>
  | BadCentile         \<comment> \<open>\<open>elog(ERROR, "centiles must be between 1-99 inclusive")\<close>\<close>
  | TypeMismatch       \<comment> \<open>\<open>elog(ERROR, "sketch computed over type ...")\<close> of \<open>CM_CHECKARG\<close>\<close>
  | Undefined          \<comment> \<open>the C has no defined result (\<open>log2\<close> of a non-positive width)\<close>

subsection \<open>Floating point used by the range decomposition\<close>

text \<open>
  \<open>ilog2 n\<close> is the position of the highest set bit of \<open>n\<close>, that is
  \<open>\<lfloor>log2 n\<rfloor>\<close> for positive \<open>n\<close>.
\<close>

function ilog2 :: "int \<Rightarrow> nat" where
  "ilog2 n = (if n < 2 then 0 else Suc (ilog2 (n div 2)))"
  by pat_completeness auto
termination
  by (relation "measure nat") auto

declare ilog2.simps [simp del]

text \<open>
  The conversion of a positive \<open>int64\<close> to \<open>double\<close> (53 bits of significand, round to
  nearest, ties to even). The result is again an integer, so it is given as an \<open>int\<close>:
  values below \<open>2^53\<close> are exact, larger ones are rounded to a multiple of
  \<open>2^(ilog2 n - 52)\<close>.
\<close>

definition to_double :: "int \<Rightarrow> int" where
  "to_double n =
     (if n < 2 ^ 53 then n
      else let u = 2 ^ (ilog2 n - 52); q = n div u; r = n mod u
           in if 2 * r < u \<or> (2 * r = u \<and> even q) then q * u else (q + 1) * u)"

text \<open>
  \<open>trunc(log2(x))\<close> for a positive integral double \<open>x\<close>. The C library may return the
  next integer for an \<open>x\<close> just below a power of two ("log2 rounds up incorrectly");
  the loop that follows it in the C, modelled by \<open>dyad_loop\<close>, takes such an
  overestimate back, so the model starts from the exact value.
\<close>

definition trunc_log2 :: "int \<Rightarrow> nat" where
  "trunc_log2 x = ilog2 x"

text \<open>\<open>while (pow(2,dyad) > (top - bot + 1)) dyad--;\<close> where the right-hand side is
  converted to \<open>double\<close> for the comparison: \<open>x\<close> is that converted value. For
  \<open>x \<ge> 1\<close> the loop stops at \<open>dyad = 0\<close> at the latest.\<close>

fun dyad_loop :: "nat \<Rightarrow> int \<Rightarrow> nat" where
  "dyad_loop 0 x = 0"
| "dyad_loop (Suc d) x = (if 2 ^ Suc d > x then dyad_loop d x else Suc d)"

text \<open>The conversion of any \<open>int64\<close>, and of any integral product of two
  doubles, to \<open>double\<close>: rounding is symmetric around zero.\<close>

definition dbl :: "int \<Rightarrow> int" where
  "dbl x = (if x < 0 then - to_double (- x) else to_double x)"

text \<open>
  Division of two positive integral doubles, followed by \<open>trunc\<close> (or by the
  conversion to \<open>int64\<close>, which truncates too). \<open>quot_exp a b\<close> is the binary exponent
  \<open>\<lfloor>log2 (a/b)\<rfloor>\<close> of the quotient; the quotient is rounded to 53 significant bits,
  to nearest with ties to even (\<open>rne_div\<close>), and then truncated to an integer.
\<close>

definition rne_div :: "int \<Rightarrow> int \<Rightarrow> int" where
  "rne_div N D =
     (let q = N div D; r = N mod D
      in if 2 * r < D \<or> (2 * r = D \<and> even q) then q else q + 1)"

definition quot_exp :: "int \<Rightarrow> int \<Rightarrow> int" where
  "quot_exp a b =
     (let e0 = int (ilog2 a) - int (ilog2 b)
      in if (if 0 \<le> e0 then b * 2 ^ nat e0 \<le> a else b \<le> a * 2 ^ nat (- e0))
         then e0 else e0 - 1)"

definition trunc_fdiv :: "int \<Rightarrow> int \<Rightarrow> int" where
  "trunc_fdiv a b =
     (let s = quot_exp a b - 52
      in if 0 \<le> s then rne_div a (b * 2 ^ nat s) * 2 ^ nat s
         else rne_div (a * 2 ^ nat (- s)) b div 2 ^ nat (- s))"

text \<open>The same for a dividend of any sign (the divisor is positive): \<open>trunc\<close> is
  towards zero.\<close>

definition trunc_ddiv :: "int \<Rightarrow> int \<Rightarrow> int" where
  "trunc_ddiv a b =
     (if a = 0 then 0 else if a < 0 then - trunc_fdiv (- a) b else trunc_fdiv a b)"

text \<open>C's integer division, which truncates towards zero.\<close>

definition tdiv :: "int \<Rightarrow> int \<Rightarrow> int" where
  "tdiv a b = sgn a * sgn b * (\<bar>a\<bar> div \<bar>b\<bar>)"

subsection \<open>Range decomposition: \<open>find_ranges\<close>\<close>

text \<open>
  A span is a pair \<open>(low, high)\<close>. The routine only ever appends to the range list
  \<open>r\<close> at \<open>r->emptyoffset\<close>, so the model returns the spans it appends, in the order
  in which it appends them. The parameters \<open>bot\<close> and \<open>top\<close> of the C are
  \<open>bt\<close> and \<open>tp\<close> here, and \<open>power\<close> is \<open>pw\<close>. The width \<open>top - bot + 1\<close> is computed in \<open>int64\<close>; when
  it wraps to a non-positive number, \<open>log2\<close> has no defined result and the model
  returns \<open>Undefined\<close>.
\<close>

type_synonym span = "int \<times> int"

fun seq_spans :: "error + span list \<Rightarrow> error + span list \<Rightarrow> error + span list" where
  "seq_spans (Inl e) _ = Inl e"
| "seq_spans (Inr r1) (Inl e) = Inl e"
| "seq_spans (Inr r1) (Inr r2) = Inr (r1 @ r2)"

function find_ranges_internal :: "countmin_h \<Rightarrow> int \<Rightarrow> int \<Rightarrow> int \<Rightarrow> error + span list" where
  "find_ranges_internal h bt tp pw =
     (if tp < bt \<or> pw < 0 then Inr []
      else if tp = bt then Inr [(bt, bt)]
      else if tp \<ge> 0 \<and> bt < 0 then
        seq_spans (find_ranges_internal h bt (- 1) (pw - 1))
                  (find_ranges_internal h 0 tp (pw - 1))
      else
        let n = s64 (tp - bt + 1) in
        if n \<le> 0 then Inl Undefined
        else
          let dyad = dyad_loop (trunc_log2 (to_double n)) (to_double n);
              width = 2 ^ dyad
          in
          if bt = MINVAL h \<or> u64 bt mod width = 0 then
            seq_spans (Inr [(bt, s64 (u64 bt + width - 1))])
                      (find_ranges_internal h (s64 (u64 bt + width)) tp (pw - 1))
          else if tp = MAXVAL h \<or> u64 (tp + 1) mod width = 0 then
            seq_spans (Inr [(s64 (u64 tp - width + 1), tp)])
                      (find_ranges_internal h bt (s64 (u64 tp - width)) (pw - 1))
          else
            let power_of_2 = s64 (width * (u64 tp div width)) in
            seq_spans (find_ranges_internal h bt (s64 (power_of_2 - 1)) (pw - 1))
                      (find_ranges_internal h power_of_2 tp (pw - 1)))"
  by pat_completeness auto
termination
  by (relation "measure (\<lambda>(h, bt, tp, pw). nat (pw + 1))") auto

declare find_ranges_internal.simps [simp del]

definition find_ranges :: "countmin_h \<Rightarrow> int \<Rightarrow> int \<Rightarrow> error + span list" where
  "find_ranges h bt tp = find_ranges_internal h bt tp (int RANGES - 1)"

subsection \<open>The sketch and its host\<close>

text \<open>
  A \<open>countmin\<close> is the counter array of one dyadic range, indexed by hash row and
  column; the transition value \<open>cmtransval\<close> holds one per range. The counters are
  \<open>int64\<close>. A transition blob is either too small to be a \<open>cmtransval\<close>
  (\<open>VARSIZE(transblob) < CM_TRANSVAL_SZ\<close>, a state not yet initialized) or holds one.
\<close>

type_synonym countmin = "nat \<Rightarrow> nat \<Rightarrow> int"

record cmtransval =
  typOid :: nat
  outFuncOid :: nat
  sketches :: "nat \<Rightarrow> countmin"

datatype transblob = Uninitialized | Transval cmtransval

text \<open>
  What the file takes from PostgreSQL and from \<open>sketch_support\<close>: the catalog lookup
  \<open>getTypeOutputInfo\<close>, and \<open>md5_datum(OidOutputFunctionCall(oid, dat))\<close>, the digest
  of the stringified value. Of the digest only the \<open>unsigned short\<close> at byte offset
  \<open>2*i\<close> is ever read, so \<open>md5_twobytes pg oid dat i\<close> stands for that number.
\<close>

record host =
  getTypeOutputInfo :: "nat \<Rightarrow> nat"
  md5_twobytes :: "nat \<Rightarrow> int \<Rightarrow> nat \<Rightarrow> nat"

definition INT8OID :: nat where
  "INT8OID = 20"

text \<open>\<open>LONG_MAX\<close> of \<open>limits.h\<close> where \<open>long\<close> has 64 bits.\<close>

definition LONG_MAX :: int where
  "LONG_MAX = 2 ^ 63 - 1"

definition cmsketch_check_transval :: "host \<Rightarrow> transblob \<Rightarrow> cmtransval" where
  "cmsketch_check_transval pg transblob =
     (case transblob of
        Uninitialized \<Rightarrow>
          \<lparr>typOid = INT8OID, outFuncOid = getTypeOutputInfo pg INT8OID,
           sketches = (\<lambda>i j k. 0)\<rparr>
      | Transval transval \<Rightarrow> transval)"

subsection \<open>The hash lanes and the two lambdas\<close>

text \<open>
  A lambda gets the row, the column, the sketch and the running value; it returns the
  sketch as it leaves it and either the new running value or the error it raised.
  \<open>elog(ERROR, ...)\<close> does not return, so the sketch that comes with an error is the
  sketch as it was when the operation was abandoned.
\<close>

type_synonym lambda = "nat \<Rightarrow> nat \<Rightarrow> countmin \<Rightarrow> int \<Rightarrow> countmin \<times> (error + int)"

definition increment_counter :: lambda where
  "increment_counter i col sketch transval =
     (let oldval = sketch i col in
      if sketch i col = LONG_MAX div 2 then (sketch, Inl MaxCountExceeded)
      else (sketch(i := (sketch i)(col := s64 (oldval + 1))), Inr (s64 (oldval + 1))))"

definition min_counter :: lambda where
  "min_counter i col sketch transval =
     (let thisval = sketch i col in
      (sketch, Inr (if thisval < transval then thisval else transval)))"

function hash_counters_iterate_from ::
  "countmin_h \<Rightarrow> (nat \<Rightarrow> nat) \<Rightarrow> lambda \<Rightarrow> nat \<Rightarrow> countmin \<Rightarrow> int \<Rightarrow> countmin \<times> (error + int)" where
  "hash_counters_iterate_from h hashval lambdaptr i sketch retval =
     (if i < DEPTH h then
        (let col = hashval i mod NUMCOUNTERS h in
         case lambdaptr i col sketch retval of
           (sketch', Inl e) \<Rightarrow> (sketch', Inl e)
         | (sketch', Inr retval') \<Rightarrow>
             hash_counters_iterate_from h hashval lambdaptr (i + 1) sketch' retval')
      else (sketch, Inr retval))"
  by pat_completeness auto
termination
  by (relation "measure (\<lambda>(h, hashval, lambdaptr, i, sketch, retval). DEPTH h - i)") auto

declare hash_counters_iterate_from.simps [simp del]

definition hash_counters_iterate ::
  "countmin_h \<Rightarrow> (nat \<Rightarrow> nat) \<Rightarrow> countmin \<Rightarrow> int \<Rightarrow> lambda \<Rightarrow> countmin \<times> (error + int)" where
  "hash_counters_iterate h hashval sketch initial lambdaptr =
     hash_counters_iterate_from h hashval lambdaptr 0 sketch initial"

subsection \<open>Insertion\<close>

definition countmin_trans_c ::
  "host \<Rightarrow> countmin_h \<Rightarrow> countmin \<Rightarrow> int \<Rightarrow> nat \<Rightarrow> countmin \<times> (error + unit)" where
  "countmin_trans_c pg h sketch dat oid =
     (case hash_counters_iterate h (md5_twobytes pg oid dat) sketch 0 increment_counter of
        (sketch', Inl e) \<Rightarrow> (sketch', Inl e)
      | (sketch', Inr _) \<Rightarrow> (sketch', Inr ()))"

text \<open>\<open>inputi >>= 1\<close> on an \<open>int64\<close> is the arithmetic shift, \<open>inputi div 2\<close>.\<close>

function countmin_dyadic_trans_c_from ::
  "host \<Rightarrow> countmin_h \<Rightarrow> nat \<Rightarrow> cmtransval \<Rightarrow> int \<Rightarrow> cmtransval \<times> (error + unit)" where
  "countmin_dyadic_trans_c_from pg h j transval inputi =
     (if j < RANGES then
        (case countmin_trans_c pg h (sketches transval j) inputi (outFuncOid transval) of
           (sketch', Inl e) \<Rightarrow>
             (transval\<lparr>sketches := (sketches transval)(j := sketch')\<rparr>, Inl e)
         | (sketch', Inr _) \<Rightarrow>
             countmin_dyadic_trans_c_from pg h (j + 1)
               (transval\<lparr>sketches := (sketches transval)(j := sketch')\<rparr>) (inputi div 2))
      else (transval, Inr ()))"
  by pat_completeness auto
termination
  by (relation "measure (\<lambda>(pg, h, j, transval, inputi). RANGES - j)") auto

declare countmin_dyadic_trans_c_from.simps [simp del]

definition countmin_dyadic_trans_c ::
  "host \<Rightarrow> countmin_h \<Rightarrow> cmtransval \<Rightarrow> int \<Rightarrow> cmtransval \<times> (error + unit)" where
  "countmin_dyadic_trans_c pg h transval inputi =
     countmin_dyadic_trans_c_from pg h 0 transval inputi"

text \<open>
  The aggregate's transition function. \<open>in_agg\<close> says whether the call comes from
  an aggregate context, \<open>arg\<close> is the element, \<open>None\<close> for SQL NULL. An error
  abandons the transaction, so no state comes with it.
\<close>

definition cmsketch_trans ::
  "host \<Rightarrow> countmin_h \<Rightarrow> bool \<Rightarrow> transblob \<Rightarrow> int option \<Rightarrow> error + transblob" where
  "cmsketch_trans pg h in_agg transblob arg =
     (if \<not> in_agg then Inl OutsideAgg
      else
        let transval = cmsketch_check_transval pg transblob in
        case arg of
          Some inputi \<Rightarrow>
            (case countmin_dyadic_trans_c pg h transval inputi of
               (transval', Inl e) \<Rightarrow> Inl e
             | (transval', Inr _) \<Rightarrow> Inr (Transval transval'))
        | None \<Rightarrow> Inr (Transval transval))"

subsection \<open>Merging\<close>

text \<open>
  The three nested loops of \<open>cmsketch_combine\<close>, innermost first. \<open>+=\<close> on
  \<open>int64\<close> is the addition modulo \<open>2^64\<close>.
\<close>

definition combine_k :: "countmin_h \<Rightarrow> (nat \<Rightarrow> countmin) \<Rightarrow> nat \<Rightarrow> nat \<Rightarrow> (nat \<Rightarrow> countmin) \<Rightarrow> (nat \<Rightarrow> countmin)" where
  "combine_k h sketches2 i j newsketches =
     fold (\<lambda>k new. new(i := (new i)(j := (new i j)(k := s64 (new i j k + sketches2 i j k)))))
       [0..<NUMCOUNTERS h] newsketches"

definition combine_j :: "countmin_h \<Rightarrow> (nat \<Rightarrow> countmin) \<Rightarrow> nat \<Rightarrow> (nat \<Rightarrow> countmin) \<Rightarrow> (nat \<Rightarrow> countmin)" where
  "combine_j h sketches2 i newsketches =
     fold (\<lambda>j new. combine_k h sketches2 i j new) [0..<DEPTH h] newsketches"

definition combine_i :: "countmin_h \<Rightarrow> (nat \<Rightarrow> countmin) \<Rightarrow> (nat \<Rightarrow> countmin) \<Rightarrow> (nat \<Rightarrow> countmin)" where
  "combine_i h sketches2 newsketches =
     fold (\<lambda>i new. combine_j h sketches2 i new) [0..<RANGES] newsketches"

text \<open>The SQL function has no \<open>elog\<close>: it always returns the new blob.\<close>

definition cmsketch_combine :: "host \<Rightarrow> countmin_h \<Rightarrow> transblob \<Rightarrow> transblob \<Rightarrow> error + transblob" where
  "cmsketch_combine pg h blob1 blob2 =
     (let counterblob1 = cmsketch_check_transval pg blob1;
          counterblob2 = cmsketch_check_transval pg blob2;
          sketches2 = sketches counterblob2;
          newblob = counterblob1
      in Inr (Transval (newblob\<lparr>sketches := combine_i h sketches2 (sketches newblob)\<rparr>)))"

subsection \<open>Point and range counts\<close>

definition cmsketch_getcount_c :: "host \<Rightarrow> countmin_h \<Rightarrow> countmin \<Rightarrow> int \<Rightarrow> nat \<Rightarrow> error + int" where
  "cmsketch_getcount_c pg h sketch arg funcOid =
     snd (hash_counters_iterate h (md5_twobytes pg funcOid arg) sketch LONG_MAX min_counter)"

text \<open>
  The SQL function. \<open>CM_CHECKARG\<close> returns NULL for a NULL argument and raises an
  error when the argument's type, \<open>argtype\<close>, is not the sketch's.
\<close>

definition cmsketch_getcount ::
  "host \<Rightarrow> countmin_h \<Rightarrow> transblob \<Rightarrow> int option \<Rightarrow> nat \<Rightarrow> error + int option" where
  "cmsketch_getcount pg h transblob arg argtype =
     (let transval = cmsketch_check_transval pg transblob in
      case arg of
        None \<Rightarrow> Inr None
      | Some v \<Rightarrow>
          if typOid transval \<noteq> argtype then Inl TypeMismatch
          else (case cmsketch_getcount_c pg h (sketches transval 0) v (outFuncOid transval) of
                  Inl e \<Rightarrow> Inl e
                | Inr c \<Rightarrow> Inr (Some c)))"

text \<open>
  The loop of \<open>cmsketch_rangecount_c\<close> over the spans found. \<open>log2\<close> of the span's
  width gives the dyadic range; the width is computed in \<open>int64\<close>, and for a width
  that wraps to a non-positive number \<open>log2\<close> has no defined result. The count is
  looked up for \<open>(Datum) low >> dyad\<close>: \<open>Datum\<close> is unsigned, so this shift is the
  logical one, \<open>u64 low div 2 ^ dyad\<close>.
\<close>

fun rangecount_loop :: "host \<Rightarrow> countmin_h \<Rightarrow> cmtransval \<Rightarrow> span list \<Rightarrow> int \<Rightarrow> error + int" where
  "rangecount_loop pg h transval [] cursum = Inr cursum"
| "rangecount_loop pg h transval ((lo, hi) # r) cursum =
     (let wd = s64 (hi - lo + 1) in
      if wd \<le> 0 then Inl Undefined
      else
        let dyad = trunc_log2 (dbl wd) in
        case cmsketch_getcount_c pg h (sketches transval dyad)
               (s64 (u64 lo div 2 ^ dyad)) (outFuncOid transval) of
          Inl e \<Rightarrow> Inl e
        | Inr val \<Rightarrow> rangecount_loop pg h transval r (s64 (cursum + val)))"

definition cmsketch_rangecount_c :: "host \<Rightarrow> countmin_h \<Rightarrow> cmtransval \<Rightarrow> int \<Rightarrow> int \<Rightarrow> error + int" where
  "cmsketch_rangecount_c pg h transval bt tp =
     (case find_ranges h bt tp of
        Inl e \<Rightarrow> Inl e
      | Inr r \<Rightarrow> rangecount_loop pg h transval r 0)"

subsection \<open>Centiles\<close>

text \<open>\<open>(int64)(total * (float8)intcentile/100.0)\<close>: \<open>total\<close> is converted to
  \<open>double\<close>, the product and the quotient are rounded, the conversion truncates. The C's
  \<open>total\<close> is \<open>tot\<close> here.\<close>

definition centile_count :: "int \<Rightarrow> int \<Rightarrow> int" where
  "centile_count tot intcentile = trunc_ddiv (dbl (dbl tot * intcentile)) 100"

function centile_loop ::
  "host \<Rightarrow> countmin_h \<Rightarrow> cmtransval \<Rightarrow> int \<Rightarrow> nat \<Rightarrow> int \<Rightarrow> int \<Rightarrow> int \<Rightarrow> error + int" where
  "centile_loop pg h transval centile_cnt i loguess higuess curguess =
     (if i < LONGBITS - 1 \<and> s64 (higuess - loguess) > 1 then
        (case cmsketch_rangecount_c pg h transval (MINVAL h) curguess of
           Inl e \<Rightarrow> Inl e
         | Inr curcount \<Rightarrow>
             if curcount = centile_cnt then Inr curguess
             else if curcount > centile_cnt then
               centile_loop pg h transval centile_cnt (i + 1) loguess curguess
                 (s64 (loguess + tdiv (s64 (curguess - loguess)) 2))
             else
               centile_loop pg h transval centile_cnt (i + 1) curguess higuess
                 (s64 (higuess - tdiv (s64 (higuess - curguess)) 2)))
      else Inr curguess)"
  by pat_completeness auto
termination
  by (relation "measure (\<lambda>(pg, h, transval, centile_cnt, i, loguess, higuess, curguess).
        LONGBITS - 1 - i)") auto

declare centile_loop.simps [simp del]

definition cmsketch_centile_c :: "host \<Rightarrow> countmin_h \<Rightarrow> cmtransval \<Rightarrow> int \<Rightarrow> int \<Rightarrow> error + int" where
  "cmsketch_centile_c pg h transval intcentile tot =
     (if intcentile \<le> 0 \<or> intcentile \<ge> 100 then Inl BadCentile
      else centile_loop pg h transval (centile_count tot intcentile) 0
             (MINVAL h) (MAXVAL h) 0)"

definition cmsketch_centile :: "host \<Rightarrow> countmin_h \<Rightarrow> transblob \<Rightarrow> int option \<Rightarrow> error + int option" where
  "cmsketch_centile pg h transblob arg =
     (let transval = cmsketch_check_transval pg transblob in
      case arg of
        None \<Rightarrow> Inr None
      | Some centile \<Rightarrow>
          (case cmsketch_rangecount_c pg h transval (MINVAL h) (MAXVAL h) of
             Inl e \<Rightarrow> Inl e
           | Inr tot \<Rightarrow>
               if tot = 0 then Inr None
               else (case cmsketch_centile_c pg h transval centile tot of
                       Inl e \<Rightarrow> Inl e
                     | Inr v \<Rightarrow> Inr (Some v))))"

subsection \<open>The equi-width histogram\<close>





subsection \<open>Vocabulary of the properties\<close>

text \<open>The counter of a blob at a level, row and column, as every function of the file
  reads it (through \<open>cmsketch_check_transval\<close>).\<close>

definition counter :: "host \<Rightarrow> transblob \<Rightarrow> nat \<Rightarrow> nat \<Rightarrow> nat \<Rightarrow> int" where
  "counter pg blob i j k = sketches (cmsketch_check_transval pg blob) i j k"

text \<open>The \<open>width\<close> that \<open>find_ranges_internal\<close> computes for a range of \<open>n\<close>
  values.\<close>

definition width_of :: "int \<Rightarrow> int" where
  "width_of n = 2 ^ dyad_loop (trunc_log2 (to_double n)) (to_double n)"

text \<open>Domain bounds of a two's-complement type of at most 64 bits.\<close>

definition dyadic_h :: "countmin_h \<Rightarrow> bool" where
  "dyadic_h h = (\<exists>k\<in>{0..63::nat}. MINVAL h = - (2 ^ k) \<and> MAXVAL h = 2 ^ k - 1)"

text \<open>
  A request is left-anchored at \<open>W\<close> when its low end is a multiple of \<open>W\<close> and
  the computed width is at most \<open>W\<close>, right-anchored when the same holds for the
  number after its high end. Both ends have the same sign.
\<close>

definition left_anchored :: "int \<Rightarrow> int \<Rightarrow> int \<Rightarrow> bool" where
  "left_anchored W bt tp =
     (in64 bt \<and> in64 tp \<and> bt \<le> tp \<and> (0 \<le> bt \<or> tp < 0) \<and> bt mod W = 0 \<and>
      width_of (tp - bt + 1) \<le> W)"

definition right_anchored :: "int \<Rightarrow> int \<Rightarrow> int \<Rightarrow> bool" where
  "right_anchored W bt tp =
     (in64 bt \<and> in64 tp \<and> bt \<le> tp \<and> (0 \<le> bt \<or> tp < 0) \<and> (tp + 1) mod W = 0 \<and>
      width_of (tp - bt + 1) \<le> W)"







text \<open>The sketch of one range after the rows below \<open>n\<close> have had their selected
  counter incremented.\<close>

definition incremented :: "countmin_h \<Rightarrow> (nat \<Rightarrow> nat) \<Rightarrow> nat \<Rightarrow> countmin \<Rightarrow> countmin" where
  "incremented h hashval n sketch =
     (\<lambda>r c. if r < n \<and> c = hashval r mod NUMCOUNTERS h then s64 (sketch r c + 1) else sketch r c)"

text \<open>The aggregate run over a list of rows (\<open>None\<close> is a NULL), from a given
  state: the transition function is called once per row, in an aggregate context.\<close>

fun insert_all :: "host \<Rightarrow> countmin_h \<Rightarrow> transblob \<Rightarrow> int option list \<Rightarrow> error + transblob" where
  "insert_all pg h blob [] = Inr blob"
| "insert_all pg h blob (v # vs) =
     (case cmsketch_trans pg h True blob v of
        Inl e \<Rightarrow> Inl e
      | Inr blob' \<Rightarrow> insert_all pg h blob' vs)"

text \<open>The invariant of the sketches built by insertion alone: every counter lies
  between zero and the ceiling.\<close>

definition bounded :: "countmin \<Rightarrow> bool" where
  "bounded sk = (\<forall>r c. 0 \<le> sk r c \<and> sk r c \<le> LONG_MAX div 2)"

text \<open>\<open>counts_at_least pg h v blob m\<close>: the state is one built by insertion, and in
  its sketch of range 0 the counters selected for \<open>v\<close> all hold at least \<open>m\<close>.\<close>

definition counts_at_least :: "host \<Rightarrow> countmin_h \<Rightarrow> int \<Rightarrow> transblob \<Rightarrow> int \<Rightarrow> bool" where
  "counts_at_least pg h v blob m =
     (let t = cmsketch_check_transval pg blob in
      (\<forall>l. bounded (sketches t l)) \<and> typOid t = INT8OID \<and>
      (\<forall>r<DEPTH h. m \<le> sketches t 0 r (md5_twobytes pg (outFuncOid t) v r mod NUMCOUNTERS h)))"

text \<open>A small host and a small header for examples: two rows of four counters, the
  hash lanes taken from the value's remainder modulo 7.\<close>

definition pg0 :: host where
  "pg0 = \<lparr>getTypeOutputInfo = (\<lambda>oid. 460), md5_twobytes = (\<lambda>oid v i. nat (v mod 7) + i)\<rparr>"

definition h0 :: countmin_h where
  "h0 = \<lparr>MINVAL = - (2 ^ 62), MAXVAL = 2 ^ 62 - 1, DEPTH = 2, NUMCOUNTERS = 4\<rparr>"

text \<open>A state whose counters all hold the same value.\<close>

definition const_blob :: "int \<Rightarrow> transblob" where
  "const_blob c = Transval \<lparr>typOid = INT8OID, outFuncOid = 460, sketches = (\<lambda>i j k. c)\<rparr>"

section \<open>Properties\<close>

subsection \<open>Conversions\<close>

lemma s64_id: "in64 x \<Longrightarrow> s64 x = x"
  by (simp add: s64_def in64_def)

lemma in64_s64: "in64 (s64 x)"
  by (simp add: s64_def in64_def)

lemma s64_add_left: "s64 (s64 a + b) = s64 (a + b)"
  by (simp add: s64_def mod_simps algebra_simps)

lemma s64_add_right: "s64 (a + s64 b) = s64 (a + b)"
  by (simp add: s64_def mod_simps algebra_simps)

lemma s64_u64: "s64 (u64 x) = s64 x"
  by (simp add: s64_def u64_def mod_simps)

subsection \<open>Splitting at zero\<close>

lemma find_ranges_internal_base: "0 \<le> pw \<Longrightarrow> find_ranges_internal h bt bt pw = Inr [(bt, bt)]"
  by (subst find_ranges_internal.simps) simp

lemma find_ranges_internal_empty: "tp < bt \<Longrightarrow> find_ranges_internal h bt tp pw = Inr []"
  by (subst find_ranges_internal.simps) simp

lemma find_ranges_internal_zero_split:
  "bt < 0 \<Longrightarrow> 0 \<le> tp \<Longrightarrow> 0 \<le> pw \<Longrightarrow>
   find_ranges_internal h bt tp pw =
     seq_spans (find_ranges_internal h bt (- 1) (pw - 1)) (find_ranges_internal h 0 tp (pw - 1))"
  by (subst find_ranges_internal.simps) simp

lemma ilog2_2: "ilog2 2 = 1"
  by (simp add: ilog2.simps)

lemma find_ranges_internal_0_1: "0 \<le> pw \<Longrightarrow> find_ranges_internal h 0 1 pw = Inr [(0, 1)]"
  by (subst find_ranges_internal.simps)
     (simp add: s64_def u64_def to_double_def trunc_log2_def ilog2_2 find_ranges_internal_empty)

text \<open>
  C4. A request with \<open>bot < 0 \<le> top\<close> is answered by the spans of \<open>[bot, -1]\<close>
  followed by the spans of \<open>[0, top]\<close>, each found by its own recursive call one
  power down; no width is computed for the request itself. In particular
  \<open>find_ranges(-1, 1)\<close> gives exactly \<open>[-1,-1]\<close> and \<open>[0,1]\<close>.
\<close>

theorem find_ranges_splits_at_zero:
  assumes "bt < 0" and "0 \<le> tp"
  shows "find_ranges h bt tp =
           seq_spans (find_ranges_internal h bt (- 1) (int RANGES - 2))
                     (find_ranges_internal h 0 tp (int RANGES - 2))
         \<and> find_ranges h (- 1) 1 = Inr [(- 1, - 1), (0, 1)]"
proof
  show "find_ranges h bt tp =
           seq_spans (find_ranges_internal h bt (- 1) (int RANGES - 2))
                     (find_ranges_internal h 0 tp (int RANGES - 2))"
    using assms find_ranges_internal_zero_split [of bt tp "int RANGES - 1" h]
    by (simp add: find_ranges_def RANGES_def LONGBITS_def)
  show "find_ranges h (- 1) 1 = Inr [(- 1, - 1), (0, 1)]"
    using find_ranges_internal_zero_split [of "- 1" 1 "int RANGES - 1" h]
    by (simp add: find_ranges_def RANGES_def LONGBITS_def find_ranges_internal_base
        find_ranges_internal_0_1)
qed

theorem find_ranges_splits_at_zero_witness:
  "find_ranges h0 (- 5) 6 =
     seq_spans (find_ranges_internal h0 (- 5) (- 1) (int RANGES - 2))
               (find_ranges_internal h0 0 6 (int RANGES - 2))
   \<and> find_ranges h0 (- 1) 1 = Inr [(- 1, - 1), (0, 1)]"
  using find_ranges_splits_at_zero [of "- 5" 6 h0] by simp

subsection \<open>Merging\<close>

lemma combine_k_apply:
  "combine_k h s2 i j new i' j' k' =
     (if i' = i \<and> j' = j \<and> k' < NUMCOUNTERS h then s64 (new i j k' + s2 i j k') else new i' j' k')"
proof -
  have "fold (\<lambda>k new. new(i := (new i)(j := (new i j)(k := s64 (new i j k + s2 i j k)))))
          [0..<n] new i' j' k' =
        (if i' = i \<and> j' = j \<and> k' < n then s64 (new i j k' + s2 i j k') else new i' j' k')" for n
    by (induction n) (auto simp: less_Suc_eq)
  then show ?thesis by (simp add: combine_k_def)
qed

lemma combine_j_apply:
  "combine_j h s2 i new i' j' k' =
     (if i' = i \<and> j' < DEPTH h \<and> k' < NUMCOUNTERS h then s64 (new i j' k' + s2 i j' k')
      else new i' j' k')"
proof -
  have "fold (\<lambda>j new. combine_k h s2 i j new) [0..<n] new i' j' k' =
        (if i' = i \<and> j' < n \<and> k' < NUMCOUNTERS h then s64 (new i j' k' + s2 i j' k')
         else new i' j' k')" for n
    by (induction n) (auto simp: less_Suc_eq combine_k_apply)
  then show ?thesis by (simp add: combine_j_def)
qed

lemma combine_i_apply:
  "combine_i h s2 new i' j' k' =
     (if i' < RANGES \<and> j' < DEPTH h \<and> k' < NUMCOUNTERS h then s64 (new i' j' k' + s2 i' j' k')
      else new i' j' k')"
proof -
  have "fold (\<lambda>i new. combine_j h s2 i new) [0..<n] new i' j' k' =
        (if i' < n \<and> j' < DEPTH h \<and> k' < NUMCOUNTERS h then s64 (new i' j' k' + s2 i' j' k')
         else new i' j' k')" for n
    by (induction n) (auto simp: less_Suc_eq combine_j_apply)
  then show ?thesis by (simp add: combine_i_def)
qed

lemma counter_Transval: "counter pg (Transval t) i j k = sketches t i j k"
  by (simp add: counter_def cmsketch_check_transval_def)

lemma counter_Uninitialized: "counter pg Uninitialized i j k = 0"
  by (simp add: counter_def cmsketch_check_transval_def)

lemma counter_const_blob: "counter pg (const_blob c) i j k = c"
  by (simp add: const_blob_def counter_Transval)

lemma cmsketch_combine_Inr: "cmsketch_combine pg h A B = Inr (projr (cmsketch_combine pg h A B))"
  by (simp add: cmsketch_combine_def Let_def)

lemma counter_combine:
  "counter pg (projr (cmsketch_combine pg h A B)) i j k =
     (if i < RANGES \<and> j < DEPTH h \<and> k < NUMCOUNTERS h
      then s64 (counter pg A i j k + counter pg B i j k) else counter pg A i j k)"
  by (simp add: cmsketch_combine_def Let_def counter_def combine_i_apply
      cmsketch_check_transval_def)

text \<open>
  C3. Counter by counter, on every counter of the sketch's shape, merging is
  commutative and associative, and merging with a sketch whose counters are all zero
  (an uninitialized state among them) gives the first operand's counters back. The
  counters are \<open>int64\<close> values.
\<close>

theorem cmsketch_combine_algebra:
  assumes "i < RANGES" and "j < DEPTH h" and "k < NUMCOUNTERS h"
    and "in64 (counter pg A i j k)"
    and "\<forall>i j k. counter pg Z i j k = 0"
  shows "counter pg (projr (cmsketch_combine pg h A B)) i j k =
           counter pg (projr (cmsketch_combine pg h B A)) i j k
       \<and> counter pg (projr (cmsketch_combine pg h (projr (cmsketch_combine pg h A B)) C)) i j k =
           counter pg (projr (cmsketch_combine pg h A (projr (cmsketch_combine pg h B C)))) i j k
       \<and> counter pg (projr (cmsketch_combine pg h A Z)) i j k = counter pg A i j k
       \<and> counter pg (projr (cmsketch_combine pg h A Uninitialized)) i j k = counter pg A i j k"
  using assms
  by (simp add: counter_combine s64_add_left s64_add_right s64_id add.commute add.left_commute
      counter_Uninitialized add.assoc)

theorem cmsketch_combine_algebra_witness:
  "(0::nat) < RANGES \<and> 1 < DEPTH h0 \<and> 3 < NUMCOUNTERS h0
   \<and> in64 (counter pg0 (const_blob 3) 0 1 3)
   \<and> (\<forall>i j k. counter pg0 (const_blob 0) i j k = 0)
   \<and> counter pg0 (projr (cmsketch_combine pg0 h0 (const_blob 3) (const_blob 4))) 0 1 3 =
         counter pg0 (projr (cmsketch_combine pg0 h0 (const_blob 4) (const_blob 3))) 0 1 3
   \<and> counter pg0 (projr (cmsketch_combine pg0 h0
           (projr (cmsketch_combine pg0 h0 (const_blob 3) (const_blob 4))) (const_blob 5))) 0 1 3 =
         counter pg0 (projr (cmsketch_combine pg0 h0 (const_blob 3)
           (projr (cmsketch_combine pg0 h0 (const_blob 4) (const_blob 5))))) 0 1 3
   \<and> counter pg0 (projr (cmsketch_combine pg0 h0 (const_blob 3) (const_blob 0))) 0 1 3 =
         counter pg0 (const_blob 3) 0 1 3
   \<and> counter pg0 (projr (cmsketch_combine pg0 h0 (const_blob 3) Uninitialized)) 0 1 3 =
         counter pg0 (const_blob 3) 0 1 3"
proof -
  have a: "(0::nat) < RANGES" "1 < DEPTH h0" "3 < NUMCOUNTERS h0"
    by (simp_all add: RANGES_def LONGBITS_def h0_def)
  have b: "in64 (counter pg0 (const_blob 3) 0 1 3)"
    by (simp add: counter_const_blob in64_def)
  have c: "\<forall>i j k. counter pg0 (const_blob 0) i j k = 0"
    by (simp add: counter_const_blob)
  show ?thesis
    using a b c cmsketch_combine_algebra [OF a b c, of "const_blob 4" "const_blob 5"]
    by simp
qed

text \<open>
  C6, as the code has it. \<open>cmsketch_combine\<close> never raises an error: on every
  counter of the sketch's shape it stores the sum of the two operands' counters
  modulo \<open>2^64\<close>, whatever the sum is, and no ceiling rule is applied. When both
  counters lie between zero and the increment's ceiling \<open>LONG_MAX >> 1\<close>, the stored
  value is the exact sum.
\<close>

theorem cmsketch_combine_sums:
  "cmsketch_combine pg h A B = Inr (projr (cmsketch_combine pg h A B))
   \<and> counter pg (projr (cmsketch_combine pg h A B)) i j k =
       (if i < RANGES \<and> j < DEPTH h \<and> k < NUMCOUNTERS h
        then s64 (counter pg A i j k + counter pg B i j k) else counter pg A i j k)
   \<and> (i < RANGES \<and> j < DEPTH h \<and> k < NUMCOUNTERS h
        \<and> 0 \<le> counter pg A i j k \<and> counter pg A i j k \<le> LONG_MAX div 2
        \<and> 0 \<le> counter pg B i j k \<and> counter pg B i j k \<le> LONG_MAX div 2
      \<longrightarrow> counter pg (projr (cmsketch_combine pg h A B)) i j k =
            counter pg A i j k + counter pg B i j k)"
proof -
  have "s64 (a + b) = a + b"
    if "0 \<le> a" "a \<le> LONG_MAX div 2" "0 \<le> b" "b \<le> LONG_MAX div 2" for a b
    using that by (intro s64_id) (simp add: in64_def LONG_MAX_def)
  then show ?thesis
    using cmsketch_combine_Inr [of pg h A B] by (simp add: counter_combine)
qed

theorem cmsketch_combine_sums_witness:
  "cmsketch_combine pg0 h0 (const_blob 3) (const_blob 4) =
     Inr (projr (cmsketch_combine pg0 h0 (const_blob 3) (const_blob 4)))
   \<and> counter pg0 (projr (cmsketch_combine pg0 h0 (const_blob 3) (const_blob 4))) 0 1 3 = 7"
  using cmsketch_combine_sums [of pg0 h0 "const_blob 3" "const_blob 4" 0 1 3]
  by (simp add: counter_const_blob RANGES_def LONGBITS_def h0_def LONG_MAX_def)

text \<open>
  The claim C6 as stated fails: two counters at and below the ceiling whose sum
  crosses it are merged without any error, and the sum is stored.
\<close>

theorem cmsketch_combine_ceiling_counterexample:
  "cmsketch_combine pg0 h0 (const_blob (LONG_MAX div 2)) (const_blob 1) \<noteq> Inl MaxCountExceeded
   \<and> counter pg0 (projr (cmsketch_combine pg0 h0 (const_blob (LONG_MAX div 2)) (const_blob 1)))
         0 0 0 = LONG_MAX div 2 + 1"
proof -
  have "cmsketch_combine pg0 h0 (const_blob (LONG_MAX div 2)) (const_blob 1) \<noteq> Inl MaxCountExceeded"
    by (simp add: cmsketch_combine_def Let_def)
  then show ?thesis
    by (simp add: counter_combine counter_const_blob RANGES_def LONGBITS_def h0_def
        LONG_MAX_def s64_def)
qed

subsection \<open>A NULL element\<close>

text \<open>
  C10. Called in an aggregate context with a NULL element, the transition function
  returns the state it was given, with every counter as it was; an uninitialized
  state is returned initialized, with every counter zero. (Outside an aggregate
  context the call raises its error whatever the element is.)
\<close>

theorem cmsketch_trans_null:
  "cmsketch_trans pg h True (Transval t) None = Inr (Transval t)
   \<and> cmsketch_trans pg h True Uninitialized None =
       Inr (Transval (cmsketch_check_transval pg Uninitialized))
   \<and> counter pg (Transval (cmsketch_check_transval pg Uninitialized)) i j k = 0
   \<and> cmsketch_trans pg h False blob None = Inl OutsideAgg"
  by (simp add: cmsketch_trans_def cmsketch_check_transval_def counter_def)

subsection \<open>Incrementing the hash lanes\<close>

lemma hcif_done: "DEPTH h \<le> i \<Longrightarrow> hash_counters_iterate_from h hv lam i sk rv = (sk, Inr rv)"
  by (subst hash_counters_iterate_from.simps) simp

lemma hcif_inc_step:
  "i < DEPTH h \<Longrightarrow> sk i (hv i mod NUMCOUNTERS h) \<noteq> LONG_MAX div 2 \<Longrightarrow>
   hash_counters_iterate_from h hv increment_counter i sk rv =
   hash_counters_iterate_from h hv increment_counter (Suc i)
     (sk(i := (sk i)(hv i mod NUMCOUNTERS h := s64 (sk i (hv i mod NUMCOUNTERS h) + 1))))
     (s64 (sk i (hv i mod NUMCOUNTERS h) + 1))"
  by (subst hash_counters_iterate_from.simps) (simp add: increment_counter_def Let_def)

lemma hcif_inc_stop:
  "i < DEPTH h \<Longrightarrow> sk i (hv i mod NUMCOUNTERS h) = LONG_MAX div 2 \<Longrightarrow>
   hash_counters_iterate_from h hv increment_counter i sk rv = (sk, Inl MaxCountExceeded)"
  by (subst hash_counters_iterate_from.simps) (simp add: increment_counter_def Let_def)

lemma hcif_inc_abort:
  "i \<le> r0 \<Longrightarrow> r0 < DEPTH h \<Longrightarrow> sk r0 (hv r0 mod NUMCOUNTERS h) = LONG_MAX div 2 \<Longrightarrow>
   (\<forall>r. i \<le> r \<and> r < r0 \<longrightarrow> sk r (hv r mod NUMCOUNTERS h) \<noteq> LONG_MAX div 2) \<Longrightarrow>
   hash_counters_iterate_from h hv increment_counter i sk rv =
     (\<lambda>r c. if i \<le> r \<and> r < r0 \<and> c = hv r mod NUMCOUNTERS h then s64 (sk r c + 1) else sk r c,
      Inl MaxCountExceeded)"
proof (induction "r0 - i" arbitrary: i sk rv)
  case 0
  then have "i = r0" by simp
  with 0 show ?case by (simp add: hcif_inc_stop fun_eq_iff)
next
  case (Suc n)
  then have lt: "i < r0" by simp
  let ?sk = "sk(i := (sk i)(hv i mod NUMCOUNTERS h := s64 (sk i (hv i mod NUMCOUNTERS h) + 1)))"
  have ok: "sk i (hv i mod NUMCOUNTERS h) \<noteq> LONG_MAX div 2" using Suc.prems lt by simp
  have "hash_counters_iterate_from h hv increment_counter (Suc i) ?sk
          (s64 (sk i (hv i mod NUMCOUNTERS h) + 1)) =
        (\<lambda>r c. if Suc i \<le> r \<and> r < r0 \<and> c = hv r mod NUMCOUNTERS h then s64 (?sk r c + 1) else ?sk r c,
         Inl MaxCountExceeded)"
    using Suc.hyps(2) Suc.prems lt by (intro Suc.hyps(1)) auto
  moreover have "(\<lambda>r c. if Suc i \<le> r \<and> r < r0 \<and> c = hv r mod NUMCOUNTERS h then s64 (?sk r c + 1) else ?sk r c)
      = (\<lambda>r c. if i \<le> r \<and> r < r0 \<and> c = hv r mod NUMCOUNTERS h then s64 (sk r c + 1) else sk r c)"
    using lt by (intro ext) auto
  ultimately show ?case
    using lt Suc.prems(2) ok by (simp add: hcif_inc_step)
qed

lemma hcif_inc_ok:
  "i \<le> DEPTH h \<Longrightarrow>
   (\<forall>r. i \<le> r \<and> r < DEPTH h \<longrightarrow> sk r (hv r mod NUMCOUNTERS h) \<noteq> LONG_MAX div 2) \<Longrightarrow>
   \<exists>v. hash_counters_iterate_from h hv increment_counter i sk rv =
     (\<lambda>r c. if i \<le> r \<and> r < DEPTH h \<and> c = hv r mod NUMCOUNTERS h then s64 (sk r c + 1) else sk r c,
      Inr v)"
proof (induction "DEPTH h - i" arbitrary: i sk rv)
  case 0
  then have "i = DEPTH h" by simp
  then show ?case by (simp add: hcif_done fun_eq_iff)
next
  case (Suc n)
  then have lt: "i < DEPTH h" by simp
  let ?sk = "sk(i := (sk i)(hv i mod NUMCOUNTERS h := s64 (sk i (hv i mod NUMCOUNTERS h) + 1)))"
  have ok: "sk i (hv i mod NUMCOUNTERS h) \<noteq> LONG_MAX div 2" using Suc.prems lt by simp
  have "\<exists>v. hash_counters_iterate_from h hv increment_counter (Suc i) ?sk
          (s64 (sk i (hv i mod NUMCOUNTERS h) + 1)) =
        (\<lambda>r c. if Suc i \<le> r \<and> r < DEPTH h \<and> c = hv r mod NUMCOUNTERS h then s64 (?sk r c + 1) else ?sk r c,
         Inr v)"
    using Suc.hyps(2) Suc.prems lt by (intro Suc.hyps(1)) auto
  moreover have "(\<lambda>r c. if Suc i \<le> r \<and> r < DEPTH h \<and> c = hv r mod NUMCOUNTERS h then s64 (?sk r c + 1) else ?sk r c)
      = (\<lambda>r c. if i \<le> r \<and> r < DEPTH h \<and> c = hv r mod NUMCOUNTERS h then s64 (sk r c + 1) else sk r c)"
    using lt by (intro ext) auto
  ultimately show ?case
    using lt ok by (simp add: hcif_inc_step)
qed

lemma hci_inc_abort:
  assumes "r0 < DEPTH h" "sk r0 (hv r0 mod NUMCOUNTERS h) = LONG_MAX div 2"
    "\<forall>r<r0. sk r (hv r mod NUMCOUNTERS h) \<noteq> LONG_MAX div 2"
  shows "hash_counters_iterate h hv sk 0 increment_counter =
           (incremented h hv r0 sk, Inl MaxCountExceeded)"
  using hcif_inc_abort [of 0 r0 h sk hv 0] assms
  by (simp add: hash_counters_iterate_def incremented_def)

lemma hci_inc_ok:
  assumes "\<forall>r<DEPTH h. sk r (hv r mod NUMCOUNTERS h) \<noteq> LONG_MAX div 2"
  shows "\<exists>v. hash_counters_iterate h hv sk 0 increment_counter =
           (incremented h hv (DEPTH h) sk, Inr v)"
  using hcif_inc_ok [of 0 h sk hv 0] assms
  by (simp add: hash_counters_iterate_def incremented_def)

lemma hci_inc_error_iff:
  "(snd (hash_counters_iterate h hv sk 0 increment_counter) = Inl MaxCountExceeded) =
   (\<exists>r<DEPTH h. sk r (hv r mod NUMCOUNTERS h) = LONG_MAX div 2)"
proof (cases "\<exists>r<DEPTH h. sk r (hv r mod NUMCOUNTERS h) = LONG_MAX div 2")
  case True
  define r0 where "r0 = (LEAST r. r < DEPTH h \<and> sk r (hv r mod NUMCOUNTERS h) = LONG_MAX div 2)"
  from True obtain r1 where "r1 < DEPTH h \<and> sk r1 (hv r1 mod NUMCOUNTERS h) = LONG_MAX div 2"
    by blast
  then have a: "r0 < DEPTH h \<and> sk r0 (hv r0 mod NUMCOUNTERS h) = LONG_MAX div 2"
    unfolding r0_def by (rule LeastI)
  have b: "\<forall>r<r0. sk r (hv r mod NUMCOUNTERS h) \<noteq> LONG_MAX div 2"
  proof (intro allI impI)
    fix r assume "r < r0"
    then have "\<not> (r < DEPTH h \<and> sk r (hv r mod NUMCOUNTERS h) = LONG_MAX div 2)"
      unfolding r0_def by (rule not_less_Least)
    with \<open>r < r0\<close> a show "sk r (hv r mod NUMCOUNTERS h) \<noteq> LONG_MAX div 2" by auto
  qed
  from hci_inc_abort [of r0 h sk hv] a b True show ?thesis by simp
next
  case False
  then have "\<forall>r<DEPTH h. sk r (hv r mod NUMCOUNTERS h) \<noteq> LONG_MAX div 2" by simp
  from hci_inc_ok [of h sk hv] this False show ?thesis by auto
qed

lemma s64_succ: "in64 c \<Longrightarrow> c \<noteq> LONG_MAX \<Longrightarrow> s64 (c + 1) = c + 1"
  by (intro s64_id) (simp add: in64_def LONG_MAX_def)

text \<open>
  What the increment does. Incrementing the selected counter of every hash row raises
  the overflow error exactly when a selected counter is at the ceiling
  \<open>LONG_MAX >> 1\<close>, which lies strictly below the counter type's maximum. When the
  first such row is \<open>r0\<close>, the operation stops there: the rows before \<open>r0\<close> have
  been incremented, the counter of \<open>r0\<close> and those of the rows after it are
  untouched, and the error is the outcome. When there is none, the selected counter
  of every row, and nothing else, is incremented. An incremented \<open>int64\<close> counter
  that was not the type's maximum holds exactly one more than before.
\<close>

theorem increment_lanes:
  "(snd (hash_counters_iterate h hv sk 0 increment_counter) = Inl MaxCountExceeded) =
     (\<exists>r<DEPTH h. sk r (hv r mod NUMCOUNTERS h) = LONG_MAX div 2)
   \<and> LONG_MAX div 2 < LONG_MAX
   \<and> (r0 < DEPTH h \<and> sk r0 (hv r0 mod NUMCOUNTERS h) = LONG_MAX div 2
        \<and> (\<forall>r<r0. sk r (hv r mod NUMCOUNTERS h) \<noteq> LONG_MAX div 2)
      \<longrightarrow> hash_counters_iterate h hv sk 0 increment_counter =
            (incremented h hv r0 sk, Inl MaxCountExceeded))
   \<and> ((\<forall>r<DEPTH h. sk r (hv r mod NUMCOUNTERS h) \<noteq> LONG_MAX div 2)
      \<longrightarrow> (\<exists>v. hash_counters_iterate h hv sk 0 increment_counter =
            (incremented h hv (DEPTH h) sk, Inr v)))
   \<and> (r < n \<and> in64 (sk r (hv r mod NUMCOUNTERS h)) \<and> sk r (hv r mod NUMCOUNTERS h) \<noteq> LONG_MAX
      \<longrightarrow> incremented h hv n sk r (hv r mod NUMCOUNTERS h) = sk r (hv r mod NUMCOUNTERS h) + 1)
   \<and> (\<not> (r < n \<and> c = hv r mod NUMCOUNTERS h) \<longrightarrow> incremented h hv n sk r c = sk r c)"
  using hci_inc_error_iff [of h hv sk] hci_inc_abort [of r0 h sk hv] hci_inc_ok [of h sk hv]
  by (auto simp: incremented_def s64_succ LONG_MAX_def)

theorem increment_lanes_witness:
  "hash_counters_iterate h0 (md5_twobytes pg0 460 5) (\<lambda>r c. if r = 1 then LONG_MAX div 2 else 0) 0
     increment_counter =
     (incremented h0 (md5_twobytes pg0 460 5) 1 (\<lambda>r c. if r = 1 then LONG_MAX div 2 else 0),
      Inl MaxCountExceeded)
   \<and> incremented h0 (md5_twobytes pg0 460 5) 1 (\<lambda>r c. if r = 1 then LONG_MAX div 2 else 0) 0 1 = 1
   \<and> incremented h0 (md5_twobytes pg0 460 5) 1 (\<lambda>r c. if r = 1 then LONG_MAX div 2 else 0) 1 2
       = LONG_MAX div 2"
  using increment_lanes [of h0 "md5_twobytes pg0 460 5"
      "\<lambda>r c. if r = 1 then LONG_MAX div 2 else 0" 1 0 1 0]
  by (simp add: h0_def pg0_def in64_def LONG_MAX_def incremented_def)

text \<open>An insertion that meets no counter at the ceiling: in every range the selected
  counter of every row is incremented, and no error is raised.\<close>

lemma countmin_trans_c_ok:
  assumes "\<forall>r<DEPTH h. sk r (md5_twobytes pg oid dat r mod NUMCOUNTERS h) \<noteq> LONG_MAX div 2"
  shows "countmin_trans_c pg h sk dat oid =
           (incremented h (md5_twobytes pg oid dat) (DEPTH h) sk, Inr ())"
  using hci_inc_ok [of h sk "md5_twobytes pg oid dat"] assms
  by (auto simp: countmin_trans_c_def)

lemma div_2_div_power:
  fixes x :: int
  assumes "Suc j \<le> l"
  shows "x div 2 div 2 ^ (l - Suc j) = x div 2 ^ (l - j)"
proof -
  have "l - j = Suc (l - Suc j)" using assms by simp
  then have "x div 2 ^ (l - j) = x div (2 * 2 ^ (l - Suc j))" by simp
  also have "\<dots> = x div 2 div 2 ^ (l - Suc j)" by (rule zdiv_zmult2_eq) simp
  finally show ?thesis by (rule sym)
qed

lemma dyadic_from_ok:
  "(\<forall>l. j \<le> l \<and> l < RANGES \<longrightarrow>
      (\<forall>r<DEPTH h. sketches t l r
          (md5_twobytes pg (outFuncOid t) (x div 2 ^ (l - j)) r mod NUMCOUNTERS h) \<noteq> LONG_MAX div 2)) \<Longrightarrow>
   \<exists>t'. countmin_dyadic_trans_c_from pg h j t x = (t', Inr ()) \<and>
        typOid t' = typOid t \<and> outFuncOid t' = outFuncOid t \<and>
        (\<forall>l. sketches t' l =
           (if j \<le> l \<and> l < RANGES
            then incremented h (md5_twobytes pg (outFuncOid t) (x div 2 ^ (l - j))) (DEPTH h)
                   (sketches t l)
            else sketches t l))"
proof (induction "RANGES - j" arbitrary: j t x)
  case 0
  then have "\<not> j < RANGES" by simp
  then show ?case by (subst countmin_dyadic_trans_c_from.simps) auto
next
  case (Suc n)
  then have lt: "j < RANGES" and n: "n = RANGES - Suc j" by simp_all
  let ?sk = "incremented h (md5_twobytes pg (outFuncOid t) x) (DEPTH h) (sketches t j)"
  let ?t = "t\<lparr>sketches := (sketches t)(j := ?sk)\<rparr>"
  have "\<forall>r<DEPTH h. sketches t j r (md5_twobytes pg (outFuncOid t) x r mod NUMCOUNTERS h) \<noteq> LONG_MAX div 2"
    using Suc.prems lt by (metis diff_self_eq_0 div_by_1 order_refl power_0)
  then have c: "countmin_trans_c pg h (sketches t j) x (outFuncOid t) = (?sk, Inr ())"
    by (rule countmin_trans_c_ok)
  have step: "countmin_dyadic_trans_c_from pg h j t x =
      countmin_dyadic_trans_c_from pg h (Suc j) ?t (x div 2)"
    using lt by (subst countmin_dyadic_trans_c_from.simps) (simp add: c)
  have "\<forall>l. Suc j \<le> l \<and> l < RANGES \<longrightarrow>
      (\<forall>r<DEPTH h. sketches ?t l r
          (md5_twobytes pg (outFuncOid ?t) (x div 2 div 2 ^ (l - Suc j)) r mod NUMCOUNTERS h) \<noteq> LONG_MAX div 2)"
  proof (intro allI impI)
    fix l r assume a: "Suc j \<le> l \<and> l < RANGES" and r: "r < DEPTH h"
    then have "j \<le> l \<and> l < RANGES" by simp
    with Suc.prems r have "sketches t l r
          (md5_twobytes pg (outFuncOid t) (x div 2 ^ (l - j)) r mod NUMCOUNTERS h) \<noteq> LONG_MAX div 2"
      by blast
    moreover have "l \<noteq> j" using a by simp
    ultimately show "sketches ?t l r
          (md5_twobytes pg (outFuncOid ?t) (x div 2 div 2 ^ (l - Suc j)) r mod NUMCOUNTERS h) \<noteq> LONG_MAX div 2"
      using a by (simp add: div_2_div_power)
  qed
  from Suc.hyps(1) [OF n this] obtain t' where
    t': "countmin_dyadic_trans_c_from pg h (Suc j) ?t (x div 2) = (t', Inr ())"
    "typOid t' = typOid ?t" "outFuncOid t' = outFuncOid ?t"
    "\<forall>l. sketches t' l =
           (if Suc j \<le> l \<and> l < RANGES
            then incremented h (md5_twobytes pg (outFuncOid ?t) (x div 2 div 2 ^ (l - Suc j))) (DEPTH h)
                   (sketches ?t l)
            else sketches ?t l)"
    by blast
  have "sketches t' l =
           (if j \<le> l \<and> l < RANGES
            then incremented h (md5_twobytes pg (outFuncOid t) (x div 2 ^ (l - j))) (DEPTH h)
                   (sketches t l)
            else sketches t l)" for l
  proof (cases "l = j")
    case True
    with t'(4) lt show ?thesis by simp
  next
    case False
    show ?thesis
    proof (cases "Suc j \<le> l")
      case True
      with t'(4) False show ?thesis by (simp add: div_2_div_power)
    next
      case n: False
      with False have "\<not> j \<le> l" by simp
      with t'(4) n False show ?thesis by simp
    qed
  qed
  with t'(1,2,3) step show ?case by simp
qed

lemma cmsketch_trans_ok:
  assumes "\<forall>l<RANGES. \<forall>r<DEPTH h. counter pg blob l r
     (md5_twobytes pg (outFuncOid (cmsketch_check_transval pg blob)) (x div 2 ^ l) r mod NUMCOUNTERS h)
        \<noteq> LONG_MAX div 2"
  shows "\<exists>blob'. cmsketch_trans pg h True blob (Some x) = Inr blob' \<and>
     outFuncOid (cmsketch_check_transval pg blob') = outFuncOid (cmsketch_check_transval pg blob) \<and>
     (\<forall>l r c. counter pg blob' l r c =
        (if l < RANGES
         then incremented h (md5_twobytes pg (outFuncOid (cmsketch_check_transval pg blob)) (x div 2 ^ l))
                (DEPTH h) (counter pg blob l) r c
         else counter pg blob l r c))"
proof -
  let ?t = "cmsketch_check_transval pg blob"
  have ce: "counter pg blob l = sketches ?t l" for l
    by (intro ext) (simp add: counter_def)
  have "\<forall>l. 0 \<le> l \<and> l < RANGES \<longrightarrow>
      (\<forall>r<DEPTH h. sketches ?t l r
          (md5_twobytes pg (outFuncOid ?t) (x div 2 ^ (l - 0)) r mod NUMCOUNTERS h) \<noteq> LONG_MAX div 2)"
    using assms by (simp add: counter_def)
  from dyadic_from_ok [OF this] obtain t' where
    t': "countmin_dyadic_trans_c_from pg h 0 ?t x = (t', Inr ())" "outFuncOid t' = outFuncOid ?t"
    "\<forall>l. sketches t' l =
           (if 0 \<le> l \<and> l < RANGES
            then incremented h (md5_twobytes pg (outFuncOid ?t) (x div 2 ^ (l - 0))) (DEPTH h)
                   (sketches ?t l)
            else sketches ?t l)"
    by blast
  have "cmsketch_trans pg h True blob (Some x) = Inr (Transval t')"
    using t'(1) by (simp add: cmsketch_trans_def Let_def countmin_dyadic_trans_c_def)
  moreover have "outFuncOid (cmsketch_check_transval pg (Transval t')) = outFuncOid ?t"
    using t'(2) by (simp add: cmsketch_check_transval_def)
  moreover have "\<forall>l r c. counter pg (Transval t') l r c =
        (if l < RANGES
         then incremented h (md5_twobytes pg (outFuncOid ?t) (x div 2 ^ l)) (DEPTH h) (counter pg blob l) r c
         else counter pg blob l r c)"
    using t'(3) by (simp add: counter_Transval ce)
  ultimately show ?thesis by blast
qed

text \<open>
  C5. The increment is to raise its error rather than let a counter wrap. The test is
  an equality with the ceiling \<open>LONG_MAX >> 1\<close>, so a counter that is above the
  ceiling is incremented like any other. Take two states in which every counter is at
  the ceiling, the highest value that insertions reach, and merge them: the counters
  of the merged state hold \<open>LONG_MAX - 1\<close>. Inserting the value 5 into it twice
  raises no error; the counter of row 0 selected for 5 in range 0 (column 1) holds
  \<open>LONG_MAX\<close> after the first insertion and the smallest \<open>int64\<close> after the
  second: it has wrapped.
\<close>

theorem increment_wraps_after_merge:
  "\<exists>m b1 b2.
     cmsketch_combine pg0 h0 (const_blob (LONG_MAX div 2)) (const_blob (LONG_MAX div 2)) = Inr m
     \<and> cmsketch_trans pg0 h0 True m (Some 5) = Inr b1
     \<and> cmsketch_trans pg0 h0 True b1 (Some 5) = Inr b2
     \<and> counter pg0 m 0 0 1 = LONG_MAX - 1
     \<and> counter pg0 b1 0 0 1 = LONG_MAX
     \<and> counter pg0 b2 0 0 1 = - LONG_MAX - 1"
proof -
  define m where "m = projr (cmsketch_combine pg0 h0 (const_blob (LONG_MAX div 2)) (const_blob (LONG_MAX div 2)))"
  have m: "cmsketch_combine pg0 h0 (const_blob (LONG_MAX div 2)) (const_blob (LONG_MAX div 2)) = Inr m"
    unfolding m_def by (rule cmsketch_combine_Inr)
  have hv: "md5_twobytes pg0 oid v r mod NUMCOUNTERS h0 < 4" for oid v r
    by (simp add: h0_def)
  have hv0: "md5_twobytes pg0 oid 5 0 mod NUMCOUNTERS h0 = 1" for oid
    by (simp add: h0_def pg0_def)
  have cm: "counter pg0 m l r c = LONG_MAX - 1" if "l < RANGES" "r < DEPTH h0" "c < 4" for l r c
    using that unfolding m_def
    by (simp add: counter_combine counter_const_blob h0_def LONG_MAX_def s64_def)
  have "\<forall>l<RANGES. \<forall>r<DEPTH h0. counter pg0 m l r
     (md5_twobytes pg0 (outFuncOid (cmsketch_check_transval pg0 m)) (5 div 2 ^ l) r mod NUMCOUNTERS h0)
        \<noteq> LONG_MAX div 2"
    using cm hv by (simp add: LONG_MAX_def)
  from cmsketch_trans_ok [OF this] obtain b1 where
    b1: "cmsketch_trans pg0 h0 True m (Some 5) = Inr b1"
    "outFuncOid (cmsketch_check_transval pg0 b1) = outFuncOid (cmsketch_check_transval pg0 m)"
    "\<forall>l r c. counter pg0 b1 l r c =
        (if l < RANGES
         then incremented h0 (md5_twobytes pg0 (outFuncOid (cmsketch_check_transval pg0 m)) (5 div 2 ^ l))
                (DEPTH h0) (counter pg0 m l) r c
         else counter pg0 m l r c)"
    by blast
  have c1: "counter pg0 b1 l r (md5_twobytes pg0 oid v r mod NUMCOUNTERS h0) = LONG_MAX
      \<or> counter pg0 b1 l r (md5_twobytes pg0 oid v r mod NUMCOUNTERS h0) = LONG_MAX - 1"
    if "l < RANGES" "r < DEPTH h0" for l r oid v
    using that b1(3) cm [OF that hv] by (simp add: incremented_def LONG_MAX_def s64_def)
  have "\<forall>l<RANGES. \<forall>r<DEPTH h0. counter pg0 b1 l r
     (md5_twobytes pg0 (outFuncOid (cmsketch_check_transval pg0 b1)) (5 div 2 ^ l) r mod NUMCOUNTERS h0)
        \<noteq> LONG_MAX div 2"
  proof (intro allI impI)
    fix l r assume "l < RANGES" "r < DEPTH h0"
    from c1 [OF this, of "outFuncOid (cmsketch_check_transval pg0 b1)" "5 div 2 ^ l"] show "counter pg0 b1 l r
     (md5_twobytes pg0 (outFuncOid (cmsketch_check_transval pg0 b1)) (5 div 2 ^ l) r mod NUMCOUNTERS h0)
        \<noteq> LONG_MAX div 2"
      by (auto simp: LONG_MAX_def)
  qed
  from cmsketch_trans_ok [OF this] obtain b2 where
    b2: "cmsketch_trans pg0 h0 True b1 (Some 5) = Inr b2"
    "\<forall>l r c. counter pg0 b2 l r c =
        (if l < RANGES
         then incremented h0 (md5_twobytes pg0 (outFuncOid (cmsketch_check_transval pg0 b1)) (5 div 2 ^ l))
                (DEPTH h0) (counter pg0 b1 l) r c
         else counter pg0 b1 l r c)"
    by blast
  have r0: "(0::nat) < RANGES" "0 < DEPTH h0" "(1::nat) < 4" by (simp_all add: RANGES_def LONGBITS_def h0_def)
  have v0: "counter pg0 m 0 0 1 = LONG_MAX - 1" using r0 by (rule cm)
  have v1: "counter pg0 b1 0 0 1 = LONG_MAX"
    using b1(3) v0 r0 hv0 by (simp add: incremented_def LONG_MAX_def s64_def)
  have v2: "counter pg0 b2 0 0 1 = - LONG_MAX - 1"
    using b2(2) v1 r0 hv0 by (simp add: incremented_def LONG_MAX_def s64_def)
  from m b1(1) b2(1) v0 v1 v2 show ?thesis by blast
qed

subsection \<open>Point counts\<close>

lemma hcif_min_ge:
  "n \<le> rv \<Longrightarrow> (\<forall>r. i \<le> r \<and> r < DEPTH h \<longrightarrow> n \<le> sk r (hv r mod NUMCOUNTERS h)) \<Longrightarrow>
   \<exists>c. hash_counters_iterate_from h hv min_counter i sk rv = (sk, Inr c) \<and> n \<le> c"
proof (induction "DEPTH h - i" arbitrary: i rv)
  case 0
  then show ?case by (simp add: hcif_done)
next
  case (Suc m)
  then have lt: "i < DEPTH h" by simp
  let ?rv = "if sk i (hv i mod NUMCOUNTERS h) < rv then sk i (hv i mod NUMCOUNTERS h) else rv"
  have step: "hash_counters_iterate_from h hv min_counter i sk rv =
              hash_counters_iterate_from h hv min_counter (Suc i) sk ?rv"
    using lt by (subst hash_counters_iterate_from.simps) (simp add: min_counter_def Let_def)
  have "n \<le> ?rv" using Suc.prems lt by simp
  moreover have "\<forall>r. Suc i \<le> r \<and> r < DEPTH h \<longrightarrow> n \<le> sk r (hv r mod NUMCOUNTERS h)"
    using Suc.prems by simp
  moreover have "m = DEPTH h - Suc i" using Suc.hyps(2) by simp
  ultimately show ?case using Suc.hyps(1) [of "Suc i" ?rv] step by simp
qed

lemma getcount_c_ge:
  assumes "n \<le> LONG_MAX" "\<forall>r<DEPTH h. n \<le> sk r (md5_twobytes pg oid v r mod NUMCOUNTERS h)"
  shows "\<exists>c. cmsketch_getcount_c pg h sk v oid = Inr c \<and> n \<le> c"
  using hcif_min_ge [of n LONG_MAX 0 h sk "md5_twobytes pg oid v"] assms
  by (auto simp: cmsketch_getcount_c_def hash_counters_iterate_def)

text \<open>What a successful insertion into the sketch of one range does.\<close>

lemma countmin_trans_c_cases:
  "(\<exists>sk'. countmin_trans_c pg h sk dat oid = (sk', Inl MaxCountExceeded)) \<or>
   ((\<forall>r<DEPTH h. sk r (md5_twobytes pg oid dat r mod NUMCOUNTERS h) \<noteq> LONG_MAX div 2) \<and>
    countmin_trans_c pg h sk dat oid = (incremented h (md5_twobytes pg oid dat) (DEPTH h) sk, Inr ()))"
proof (cases "\<exists>r<DEPTH h. sk r (md5_twobytes pg oid dat r mod NUMCOUNTERS h) = LONG_MAX div 2")
  case True
  with hci_inc_error_iff [of h "md5_twobytes pg oid dat" sk]
  have "snd (hash_counters_iterate h (md5_twobytes pg oid dat) sk 0 increment_counter) = Inl MaxCountExceeded"
    by simp
  then show ?thesis
    by (cases "hash_counters_iterate h (md5_twobytes pg oid dat) sk 0 increment_counter")
       (auto simp: countmin_trans_c_def)
next
  case False
  then have ok: "\<forall>r<DEPTH h. sk r (md5_twobytes pg oid dat r mod NUMCOUNTERS h) \<noteq> LONG_MAX div 2"
    by simp
  from hci_inc_ok [of h sk "md5_twobytes pg oid dat"] ok show ?thesis
    by (auto simp: countmin_trans_c_def)
qed

lemma incremented_bounded:
  assumes "bounded sk" "\<forall>r<n. sk r (hv r mod NUMCOUNTERS h) \<noteq> LONG_MAX div 2"
  shows "bounded (incremented h hv n sk)"
    and "sk r c \<le> incremented h hv n sk r c"
    and "r < n \<Longrightarrow> incremented h hv n sk r (hv r mod NUMCOUNTERS h) = sk r (hv r mod NUMCOUNTERS h) + 1"
proof -
  have s: "s64 (sk r c + 1) = sk r c + 1" if "sk r c \<noteq> LONG_MAX div 2" for r c
  proof -
    have "0 \<le> sk r c" "sk r c \<le> LONG_MAX div 2" using assms(1) by (auto simp: bounded_def)
    then show ?thesis by (intro s64_id) (simp add: in64_def LONG_MAX_def)
  qed
  show "bounded (incremented h hv n sk)"
    unfolding bounded_def incremented_def
  proof (intro allI)
    fix r c
    have "0 \<le> sk r c" "sk r c \<le> LONG_MAX div 2" using assms(1) by (auto simp: bounded_def)
    then show "0 \<le> (if r < n \<and> c = hv r mod NUMCOUNTERS h then s64 (sk r c + 1) else sk r c) \<and>
               (if r < n \<and> c = hv r mod NUMCOUNTERS h then s64 (sk r c + 1) else sk r c) \<le> LONG_MAX div 2"
      using assms(2) s [of r c] by auto
  qed
  show "sk r c \<le> incremented h hv n sk r c"
    using assms(2) s [of r c] by (auto simp: incremented_def)
  show "incremented h hv n sk r (hv r mod NUMCOUNTERS h) = sk r (hv r mod NUMCOUNTERS h) + 1" if "r < n"
    using assms(2) s [of r "hv r mod NUMCOUNTERS h"] that by (auto simp: incremented_def)
qed

lemma dyadic_from_mono:
  "countmin_dyadic_trans_c_from pg h j t x = (t', Inr ()) \<Longrightarrow> (\<forall>l. bounded (sketches t l)) \<Longrightarrow>
   typOid t' = typOid t \<and> outFuncOid t' = outFuncOid t \<and> (\<forall>l. bounded (sketches t' l)) \<and>
   (\<forall>l r c. sketches t l r c \<le> sketches t' l r c)"
proof (induction "RANGES - j" arbitrary: j t x)
  case 0
  then have "\<not> j < RANGES" by simp
  with 0 show ?case by (subst (asm) countmin_dyadic_trans_c_from.simps) auto
next
  case (Suc n)
  then have lt: "j < RANGES" by simp
  let ?hv = "md5_twobytes pg (outFuncOid t) x"
  let ?sk = "incremented h ?hv (DEPTH h) (sketches t j)"
  let ?t = "t\<lparr>sketches := (sketches t)(j := ?sk)\<rparr>"
  from countmin_trans_c_cases [of pg h "sketches t j" x "outFuncOid t"]
  show ?case
  proof
    assume "\<exists>sk'. countmin_trans_c pg h (sketches t j) x (outFuncOid t) = (sk', Inl MaxCountExceeded)"
    then obtain sk' where "countmin_trans_c pg h (sketches t j) x (outFuncOid t) = (sk', Inl MaxCountExceeded)"
      by blast
    with Suc.prems(1) lt show ?thesis
      by (subst (asm) countmin_dyadic_trans_c_from.simps) simp
  next
    assume a: "(\<forall>r<DEPTH h. sketches t j r (?hv r mod NUMCOUNTERS h) \<noteq> LONG_MAX div 2) \<and>
      countmin_trans_c pg h (sketches t j) x (outFuncOid t) = (?sk, Inr ())"
    then have rec: "countmin_dyadic_trans_c_from pg h (Suc j) ?t (x div 2) = (t', Inr ())"
      using Suc.prems(1) lt by (subst (asm) countmin_dyadic_trans_c_from.simps) simp
    have bj: "bounded (sketches t j)" using Suc.prems(2) by simp
    have b: "\<forall>l. bounded (sketches ?t l)"
      using Suc.prems(2) incremented_bounded(1) [OF bj, of "DEPTH h" ?hv h] a by simp
    have m: "sketches t l r c \<le> sketches ?t l r c" for l r c
      using incremented_bounded(2) [OF bj, of "DEPTH h" ?hv h r c] a by simp
    have "n = RANGES - Suc j" using Suc.hyps(2) by simp
    from Suc.hyps(1) [OF this rec b]
    have ih: "typOid t' = typOid ?t \<and> outFuncOid t' = outFuncOid ?t \<and> (\<forall>l. bounded (sketches t' l)) \<and>
          (\<forall>l r c. sketches ?t l r c \<le> sketches t' l r c)" .
    have "sketches t l r c \<le> sketches t' l r c" for l r c
    proof -
      from ih have "sketches ?t l r c \<le> sketches t' l r c" by blast
      with m [of l r c] show ?thesis by (rule order_trans)
    qed
    with ih show ?thesis by simp
  qed
qed

lemma dyadic_success:
  assumes "countmin_dyadic_trans_c pg h t x = (t', Inr ())" "\<forall>l. bounded (sketches t l)"
  shows "typOid t' = typOid t" "outFuncOid t' = outFuncOid t" "\<forall>l. bounded (sketches t' l)"
    "sketches t l r c \<le> sketches t' l r c"
    "r < DEPTH h \<Longrightarrow>
       sketches t 0 r (md5_twobytes pg (outFuncOid t) x r mod NUMCOUNTERS h) + 1
         \<le> sketches t' 0 r (md5_twobytes pg (outFuncOid t) x r mod NUMCOUNTERS h)"
proof -
  from dyadic_from_mono [of pg h 0 t x t'] assms
  have all: "typOid t' = typOid t \<and> outFuncOid t' = outFuncOid t \<and> (\<forall>l. bounded (sketches t' l)) \<and>
   (\<forall>l r c. sketches t l r c \<le> sketches t' l r c)"
    by (simp add: countmin_dyadic_trans_c_def)
  then show "typOid t' = typOid t" "outFuncOid t' = outFuncOid t" "\<forall>l. bounded (sketches t' l)"
    "sketches t l r c \<le> sketches t' l r c" by auto
  let ?hv = "md5_twobytes pg (outFuncOid t) x"
  let ?sk = "incremented h ?hv (DEPTH h) (sketches t 0)"
  let ?t = "t\<lparr>sketches := (sketches t)(0 := ?sk)\<rparr>"
  show "sketches t 0 r (?hv r mod NUMCOUNTERS h) + 1 \<le> sketches t' 0 r (?hv r mod NUMCOUNTERS h)"
    if r: "r < DEPTH h"
  proof -
    from countmin_trans_c_cases [of pg h "sketches t 0" x "outFuncOid t"]
    show ?thesis
    proof
      assume "\<exists>sk'. countmin_trans_c pg h (sketches t 0) x (outFuncOid t) = (sk', Inl MaxCountExceeded)"
      then obtain sk' where "countmin_trans_c pg h (sketches t 0) x (outFuncOid t) = (sk', Inl MaxCountExceeded)"
        by blast
      with assms(1) show ?thesis
        unfolding countmin_dyadic_trans_c_def
        by (subst (asm) countmin_dyadic_trans_c_from.simps) (simp add: RANGES_def LONGBITS_def)
    next
      assume a: "(\<forall>r<DEPTH h. sketches t 0 r (?hv r mod NUMCOUNTERS h) \<noteq> LONG_MAX div 2) \<and>
        countmin_trans_c pg h (sketches t 0) x (outFuncOid t) = (?sk, Inr ())"
      then have rec: "countmin_dyadic_trans_c_from pg h (Suc 0) ?t (x div 2) = (t', Inr ())"
        using assms(1) unfolding countmin_dyadic_trans_c_def
        by (subst (asm) countmin_dyadic_trans_c_from.simps) (simp add: RANGES_def LONGBITS_def)
      have b0: "bounded (sketches t 0)" using assms(2) by simp
      have b: "\<forall>l. bounded (sketches ?t l)"
        using assms(2) incremented_bounded(1) [OF b0, of "DEPTH h" ?hv h] a by simp
      from dyadic_from_mono [OF rec b]
      have "sketches ?t 0 r (?hv r mod NUMCOUNTERS h) \<le> sketches t' 0 r (?hv r mod NUMCOUNTERS h)"
        by blast
      moreover have "sketches ?t 0 r (?hv r mod NUMCOUNTERS h) = sketches t 0 r (?hv r mod NUMCOUNTERS h) + 1"
        using incremented_bounded(3) [OF b0, of "DEPTH h" ?hv h r] a r by simp
      ultimately show ?thesis by simp
    qed
  qed
qed

lemma trans_counts_at_least:
  assumes "counts_at_least pg h v blob m" "cmsketch_trans pg h True blob a = Inr blob'"
  shows "counts_at_least pg h v blob' (m + (if a = Some v then 1 else 0))"
proof (cases a)
  case None
  with assms show ?thesis
    by (auto simp: cmsketch_trans_def counts_at_least_def Let_def cmsketch_check_transval_def)
next
  case (Some x)
  let ?t = "cmsketch_check_transval pg blob"
  from assms(2) Some obtain t' where d: "countmin_dyadic_trans_c pg h ?t x = (t', Inr ())"
    and b': "blob' = Transval t'"
    by (auto simp: cmsketch_trans_def Let_def split: prod.splits sum.splits)
  have bd: "\<forall>l. bounded (sketches ?t l)" using assms(1) by (simp add: counts_at_least_def Let_def)
  note ds = dyadic_success [OF d bd]
  have "m + (if a = Some v then 1 else 0) \<le> sketches t' 0 r (md5_twobytes pg (outFuncOid t') v r mod NUMCOUNTERS h)"
    if r: "r < DEPTH h" for r
  proof -
    have m: "m \<le> sketches ?t 0 r (md5_twobytes pg (outFuncOid ?t) v r mod NUMCOUNTERS h)"
      using assms(1) r by (simp add: counts_at_least_def Let_def)
    show ?thesis
    proof (cases "a = Some v")
      case True
      then have "x = v" using Some by simp
      with ds(5) [OF r] m ds(2) show ?thesis using True by simp
    next
      case False
      with ds(4) [of 0 r "md5_twobytes pg (outFuncOid ?t) v r mod NUMCOUNTERS h"] m ds(2)
      show ?thesis by simp
    qed
  qed
  then show ?thesis
    using ds(1,3) assms(1) b'
    by (simp add: counts_at_least_def Let_def cmsketch_check_transval_def)
qed

lemma insert_all_counts_at_least:
  "counts_at_least pg h v blob m \<Longrightarrow> insert_all pg h blob vs = Inr blob' \<Longrightarrow>
   counts_at_least pg h v blob' (m + int (count_list vs (Some v)))"
proof (induction vs arbitrary: blob m)
  case Nil
  then show ?case by simp
next
  case (Cons a vs)
  from Cons.prems(2) obtain b1 where t: "cmsketch_trans pg h True blob a = Inr b1"
    and r: "insert_all pg h b1 vs = Inr blob'"
    by (auto split: sum.splits)
  from Cons.IH [OF trans_counts_at_least [OF Cons.prems(1) t] r]
  show ?case by (cases "a = Some v") (simp_all add: algebra_simps)
qed

text \<open>
  C2. Take any run of the aggregate over a list of rows, from the uninitialized
  state, that raised no error. For every value \<open>v\<close> the point count of \<open>v\<close> in
  the resulting state is returned, and it is at least the number of times \<open>v\<close>
  occurs among the rows. (The sketch has at least one hash row.)
\<close>

theorem getcount_never_underestimates:
  assumes "0 < DEPTH h" and "insert_all pg h Uninitialized vs = Inr blob"
  shows "\<exists>c. cmsketch_getcount pg h blob (Some v) INT8OID = Inr (Some c)
             \<and> int (count_list vs (Some v)) \<le> c"
proof -
  have "counts_at_least pg h v Uninitialized 0"
    by (simp add: counts_at_least_def Let_def cmsketch_check_transval_def bounded_def LONG_MAX_def)
  from insert_all_counts_at_least [OF this assms(2)]
  have c: "counts_at_least pg h v blob (int (count_list vs (Some v)))" by simp
  let ?t = "cmsketch_check_transval pg blob"
  let ?n = "int (count_list vs (Some v))"
  from c have ge: "\<forall>r<DEPTH h. ?n \<le> sketches ?t 0 r (md5_twobytes pg (outFuncOid ?t) v r mod NUMCOUNTERS h)"
    and ty: "typOid ?t = INT8OID" and bd: "bounded (sketches ?t 0)"
    by (simp_all add: counts_at_least_def Let_def)
  from ge assms(1) have "?n \<le> sketches ?t 0 0 (md5_twobytes pg (outFuncOid ?t) v 0 mod NUMCOUNTERS h)"
    by simp
  also have "\<dots> \<le> LONG_MAX div 2" using bd by (simp add: bounded_def)
  finally have "?n \<le> LONG_MAX" by (simp add: LONG_MAX_def)
  from getcount_c_ge [of ?n h "sketches ?t 0" pg "outFuncOid ?t" v] this ge ty show ?thesis
    by (auto simp: cmsketch_getcount_def Let_def)
qed

theorem getcount_never_underestimates_witness:
  "0 < DEPTH h0
   \<and> insert_all pg0 h0 Uninitialized [Some 5, None] =
       Inr (projr (insert_all pg0 h0 Uninitialized [Some 5, None]))
   \<and> (\<exists>c. cmsketch_getcount pg0 h0
             (projr (insert_all pg0 h0 Uninitialized [Some 5, None]))
             (Some 5) INT8OID = Inr (Some c)
          \<and> int (count_list [Some (5::int), None] (Some 5)) \<le> c)"
proof -
  have a: "0 < DEPTH h0" by (simp add: h0_def)
  have "\<not> isl (insert_all pg0 h0 Uninitialized [Some 5, None])"
    by code_simp
  then have b: "insert_all pg0 h0 Uninitialized [Some 5, None] =
       Inr (projr (insert_all pg0 h0 Uninitialized [Some 5, None]))"
    by simp
  show ?thesis
    using a b getcount_never_underestimates [OF a b, of 5] by blast
qed

subsection \<open>The computed width\<close>

lemma ilog2_bounds: "1 \<le> n \<Longrightarrow> 2 ^ ilog2 n \<le> n \<and> n < 2 ^ Suc (ilog2 n)"
proof (induction n rule: ilog2.induct)
  case (1 n)
  show ?case
  proof (cases "n < 2")
    case True
    with 1 have "n = 1" by simp
    then show ?thesis by (simp add: ilog2.simps)
  next
    case False
    then have "1 \<le> n div 2" by simp
    with 1 False have ih: "2 ^ ilog2 (n div 2) \<le> n div 2 \<and> n div 2 < 2 ^ Suc (ilog2 (n div 2))"
      by simp
    have e: "ilog2 n = Suc (ilog2 (n div 2))" using False by (subst ilog2.simps) simp
    from ih show ?thesis unfolding e by simp linarith
  qed
qed

lemma ilog2_eqI: "2 ^ k \<le> n \<Longrightarrow> n < 2 ^ Suc k \<Longrightarrow> ilog2 n = k"
proof -
  assume a: "2 ^ k \<le> n" "n < 2 ^ Suc k"
  then have n: "1 \<le> n" using one_le_power [of "2::int" k] by linarith
  from ilog2_bounds [OF n] have b: "2 ^ ilog2 n \<le> n" "n < 2 ^ Suc (ilog2 n)" by auto
  have "(2::int) ^ k < 2 ^ Suc (ilog2 n)" using a(1) b(2) by linarith
  then have 1: "k < Suc (ilog2 n)" by (simp only: power_strict_increasing_iff [of "2::int"]) 
  have "(2::int) ^ ilog2 n < 2 ^ Suc k" using a(2) b(1) by linarith
  then have 2: "ilog2 n < Suc k" by (simp only: power_strict_increasing_iff [of "2::int"])
  from 1 2 show ?thesis by simp
qed

lemma ilog2_power: "ilog2 (2 ^ k) = k"
  by (rule ilog2_eqI) simp_all

lemma ilog2_le: "1 \<le> n \<Longrightarrow> n \<le> 2 ^ k \<Longrightarrow> n \<noteq> 2 ^ k \<Longrightarrow> ilog2 n < k"
proof -
  assume a: "1 \<le> n" "n \<le> 2 ^ k" "n \<noteq> 2 ^ k"
  from ilog2_bounds [OF a(1)] have "(2::int) ^ ilog2 n < 2 ^ k" using a by linarith
  then show ?thesis by (simp only: power_strict_increasing_iff [of "2::int"])
qed

lemma ilog2_mono: "1 \<le> a \<Longrightarrow> a \<le> b \<Longrightarrow> ilog2 a \<le> ilog2 b"
proof -
  assume a: "1 \<le> a" "a \<le> b"
  from ilog2_bounds [of a] ilog2_bounds [of b] a
  have "(2::int) ^ ilog2 a < 2 ^ Suc (ilog2 b)" by linarith
  then have "ilog2 a < Suc (ilog2 b)" by (simp only: power_strict_increasing_iff [of "2::int"])
  then show ?thesis by simp
qed

lemma dyad_loop_id: "2 ^ d \<le> x \<Longrightarrow> dyad_loop d x = d"
  by (cases d) (simp_all add: not_less [symmetric] del: power_Suc)

lemma dyad_loop_absorbs: "1 \<le> x \<Longrightarrow> ilog2 x \<le> d \<Longrightarrow> dyad_loop d x = ilog2 x"
proof (induction d)
  case 0
  then show ?case by simp
next
  case (Suc d)
  show ?case
  proof (cases "ilog2 x = Suc d")
    case True
    with ilog2_bounds [OF Suc.prems(1)] have "2 ^ Suc d \<le> x" by simp
    then show ?thesis using True dyad_loop_id [of "Suc d" x] by simp
  next
    case False
    with Suc.prems have le: "ilog2 x \<le> d" by simp
    from ilog2_bounds [OF Suc.prems(1)] have "x < 2 ^ Suc (ilog2 x)" by simp
    also have "\<dots> \<le> 2 ^ Suc d" using le by (simp only: power_increasing_iff [of "2::int"])
    finally have "x < 2 ^ Suc d" .
    then show ?thesis using Suc.IH [OF Suc.prems(1) le] by simp
  qed
qed


lemma to_double_exact: "n < 2 ^ 53 \<Longrightarrow> to_double n = n"
  by (simp add: to_double_def)

lemma to_double_grid:
  assumes "2 ^ 53 \<le> n"
  defines "u \<equiv> 2 ^ (ilog2 n - 52)"
  shows "52 < ilog2 n" "0 < u" "2 ^ ilog2 n = 2 ^ 52 * u" "2 ^ 52 \<le> n div u" "n div u < 2 ^ 53"
    "to_double n = (if 2 * (n mod u) < u \<or> (2 * (n mod u) = u \<and> even (n div u))
                    then n div u * u else (n div u + 1) * u)"
proof -
  have n1: "1 \<le> n" using assms(1) by simp
  have "ilog2 (2 ^ 53) \<le> ilog2 n" using assms(1) by (intro ilog2_mono) simp_all
  then show e: "52 < ilog2 n" using ilog2_power [of 53] by linarith
  show u: "0 < u" by (simp add: u_def)
  have "ilog2 n = 52 + (ilog2 n - 52)" using e by simp
  then have "(2::int) ^ ilog2 n = 2 ^ (52 + (ilog2 n - 52))" by simp
  then show p: "2 ^ ilog2 n = 2 ^ 52 * u" unfolding u_def by (simp only: power_add)
  from ilog2_bounds [OF n1] have b: "2 ^ 52 * u \<le> n" "n < 2 ^ 53 * u"
    using p by simp_all
  have "2 ^ 52 * u div u \<le> n div u" using b(1) u by (intro zdiv_mono1) simp_all
  then show "2 ^ 52 \<le> n div u" using u by simp
  have "n div u * u + n mod u = n" by simp
  moreover have "0 \<le> n mod u" using u by simp
  ultimately have "n div u * u < 2 ^ 53 * u" using b(2) by linarith
  then show "n div u < 2 ^ 53" using u by (simp only: mult_less_cancel_right_pos)
  show "to_double n = (if 2 * (n mod u) < u \<or> (2 * (n mod u) = u \<and> even (n div u))
                    then n div u * u else (n div u + 1) * u)"
    using assms(1) by (simp add: to_double_def Let_def u_def)
qed

lemma to_double_bounds:
  assumes "1 \<le> n"
  shows "2 ^ ilog2 n \<le> to_double n" "to_double n \<le> 2 ^ Suc (ilog2 n)"
proof -
  have "2 ^ ilog2 n \<le> to_double n \<and> to_double n \<le> 2 ^ Suc (ilog2 n)"
  proof (cases "n < 2 ^ 53")
    case True
    with ilog2_bounds [OF assms] show ?thesis by (simp add: to_double_exact)
  next
    case False
    then have n: "2 ^ 53 \<le> n" by simp
    define u :: int where "u = 2 ^ (ilog2 n - 52)"
    note g = to_double_grid [OF n, folded u_def]
    have lo: "2 ^ 52 * u \<le> n div u * u" using g(2,4) by simp
    have hi: "(n div u + 1) * u \<le> 2 ^ 53 * u" using g(2,5) by simp
    have mid: "n div u * u \<le> (n div u + 1) * u" using g(2) by (simp add: distrib_right)
    have s: "(2::int) ^ Suc (ilog2 n) = 2 ^ 53 * u" using g(3) by simp
    from lo hi mid show ?thesis unfolding g(6) s g(3) by auto
  qed
  then show "2 ^ ilog2 n \<le> to_double n" "to_double n \<le> 2 ^ Suc (ilog2 n)" by auto
qed

lemma to_double_power: "to_double (2 ^ k) = 2 ^ k"
proof -
  have "2 ^ ilog2 (2 ^ k) \<le> to_double (2 ^ k)" by (intro to_double_bounds) simp
  then have lo: "2 ^ k \<le> to_double (2 ^ k)" by (simp add: ilog2_power)
  show ?thesis
  proof (cases "(2::int) ^ k < 2 ^ 53")
    case True
    then show ?thesis by (simp add: to_double_exact)
  next
    case False
    then have n: "(2::int) ^ 53 \<le> 2 ^ k" by simp
    define u :: int where "u = 2 ^ (k - 52)"
    note g = to_double_grid [OF n, unfolded ilog2_power, folded u_def]
    have "(2::int) ^ k mod u = 0" using g(3) by simp
    moreover have "(2::int) ^ k div u = 2 ^ 52" using g(2,3) by simp
    ultimately show ?thesis using g(2,3) unfolding g(6) by simp
  qed
qed

lemma to_double_mono:
  assumes "1 \<le> a" "a \<le> b"
  shows "to_double a \<le> to_double b"
proof -
  have b1: "1 \<le> b" using assms by simp
  consider "b < 2 ^ 53" | "a < 2 ^ 53" "2 ^ 53 \<le> b" | "2 ^ 53 \<le> a" by linarith
  then show ?thesis
  proof cases
    case 1
    with assms show ?thesis by (simp add: to_double_exact)
  next
    case 2
    have "to_double a = a" using 2 by (simp add: to_double_exact)
    also have "a \<le> 2 ^ 53" using 2 by simp
    also have "(2::int) ^ 53 \<le> 2 ^ ilog2 b"
      using to_double_grid(1) [OF 2(2)] by (simp only: power_increasing_iff [of "2::int"])
    also have "\<dots> \<le> to_double b" by (rule to_double_bounds [OF b1])
    finally show ?thesis .
  next
    case 3
    then have bb: "2 ^ 53 \<le> b" using assms by simp
    have le: "ilog2 a \<le> ilog2 b" using assms by (rule ilog2_mono)
    show ?thesis
    proof (cases "ilog2 a = ilog2 b")
      case False
      with le have "Suc (ilog2 a) \<le> ilog2 b" by simp
      then have "(2::int) ^ Suc (ilog2 a) \<le> 2 ^ ilog2 b"
        by (simp only: power_increasing_iff [of "2::int"])
      with to_double_bounds(2) [OF assms(1)] to_double_bounds(1) [OF b1] show ?thesis by linarith
    next
      case True
      define u :: int where "u = 2 ^ (ilog2 b - 52)"
      note ga = to_double_grid [OF 3, unfolded True, folded u_def]
      note gb = to_double_grid [OF bb, folded u_def]
      have q: "a div u \<le> b div u" using assms(2) ga(2) by (intro zdiv_mono1) simp_all
      show ?thesis
      proof (cases "a div u = b div u")
        case False
        with q have "a div u + 1 \<le> b div u" by simp
        then have "(a div u + 1) * u \<le> b div u * u" using ga(2) by simp
        moreover have "a div u * u \<le> (a div u + 1) * u" using ga(2) by (simp add: distrib_right)
        moreover have "b div u * u \<le> (b div u + 1) * u" using ga(2) by (simp add: distrib_right)
        ultimately show ?thesis unfolding ga(6) gb(6) by auto
      next
        case same: True
        have "a mod u = a - a div u * u" "b mod u = b - b div u * u"
          by (simp_all add: minus_div_mult_eq_mod)
        with assms(2) same have r: "a mod u \<le> b mod u" by simp
        have "b div u * u \<le> (b div u + 1) * u" using ga(2) by (simp add: distrib_right)
        with r same show ?thesis unfolding ga(6) gb(6) by auto
      qed
    qed
  qed
qed

lemma to_double_pos: "1 \<le> n \<Longrightarrow> 1 \<le> to_double n"
  using to_double_bounds(1) [of n] one_le_power [of "2::int" "ilog2 n"] by linarith

lemma width_of_eq: "1 \<le> n \<Longrightarrow> width_of n = 2 ^ ilog2 (to_double n)"
  using ilog2_bounds [OF to_double_pos, of n]
  by (simp add: width_of_def trunc_log2_def dyad_loop_id)

lemma width_of_less: assumes "1 \<le> n" shows "n < 2 * width_of n"
proof (rule ccontr)
  assume "\<not> n < 2 * width_of n"
  then have le: "2 ^ Suc (ilog2 (to_double n)) \<le> n" using assms by (simp add: width_of_eq)
  have "1 \<le> (2::int) ^ Suc (ilog2 (to_double n))" by (rule one_le_power) simp
  from this le have "to_double (2 ^ Suc (ilog2 (to_double n))) \<le> to_double n"
    by (rule to_double_mono)
  then have "2 ^ Suc (ilog2 (to_double n)) \<le> to_double n" by (simp only: to_double_power)
  with ilog2_bounds [OF to_double_pos [OF assms]] show False by linarith
qed

lemma width_of_le_power: assumes "1 \<le> n" "n \<le> 2 ^ k" shows "width_of n \<le> 2 ^ k"
proof -
  have "to_double n \<le> to_double (2 ^ k)" using assms by (rule to_double_mono)
  then have "to_double n \<le> 2 ^ k" by (simp only: to_double_power)
  then have "ilog2 (to_double n) \<le> ilog2 (2 ^ k)"
    using to_double_pos [OF assms(1)] by (intro ilog2_mono)
  then have "ilog2 (to_double n) \<le> k" by (simp only: ilog2_power)
  then have "(2::int) ^ ilog2 (to_double n) \<le> 2 ^ k"
    by (simp only: power_increasing_iff [of "2::int"])
  then show ?thesis using assms(1) by (simp add: width_of_eq)
qed

lemma width_of_mono: assumes "1 \<le> a" "a \<le> b" shows "width_of a \<le> width_of b"
proof -
  have "ilog2 (to_double a) \<le> ilog2 (to_double b)"
    using to_double_mono [OF assms] to_double_pos [OF assms(1)] by (intro ilog2_mono)
  then have "(2::int) ^ ilog2 (to_double a) \<le> 2 ^ ilog2 (to_double b)"
    by (simp only: power_increasing_iff [of "2::int"])
  then show ?thesis using assms by (simp add: width_of_eq)
qed

lemma width_of_exact: "1 \<le> n \<Longrightarrow> n < 2 ^ 53 \<Longrightarrow> width_of n = 2 ^ ilog2 n"
  by (simp add: width_of_eq to_double_exact)


lemma width_of_power:
  assumes "1 \<le> n" "n \<le> 2 ^ k"
  shows "\<exists>e\<le>k. width_of n = 2 ^ e"
proof -
  have "(2::int) ^ ilog2 (to_double n) \<le> 2 ^ k"
    using width_of_le_power [OF assms] assms(1) by (simp add: width_of_eq)
  then have "ilog2 (to_double n) \<le> k" by (simp only: power_increasing_iff [of "2::int"])
  then show ?thesis using assms(1) by (auto simp: width_of_eq)
qed

lemma width_of_dvd: "1 \<le> n \<Longrightarrow> n \<le> 2 ^ k \<Longrightarrow> width_of n dvd 2 ^ k"
  using width_of_power [of n k] by (auto intro: le_imp_power_dvd)

lemma width_of_dvd_width:
  assumes "1 \<le> a" "a \<le> b" shows "width_of a dvd width_of b"
proof -
  have b1: "1 \<le> b" using assms by simp
  have "(2::int) ^ ilog2 (to_double a) \<le> 2 ^ ilog2 (to_double b)"
    using width_of_mono [OF assms] assms b1 by (simp add: width_of_eq)
  then have "ilog2 (to_double a) \<le> ilog2 (to_double b)"
    by (simp only: power_increasing_iff [of "2::int"])
  then show ?thesis using assms b1 by (simp add: width_of_eq le_imp_power_dvd)
qed

lemma width_of_pos: "1 \<le> n \<Longrightarrow> 0 < width_of n"
  by (simp add: width_of_eq)

lemma multiples_apart:
  fixes w :: int
  assumes "0 < w" "w dvd x" "w dvd y" "x < y"
  shows "x + w \<le> y"
proof -
  from assms(2,3) obtain a b where x: "x = w * a" and y: "y = w * b" unfolding dvd_def by blast
  from assms(1,4) have "a < b" unfolding x y by (simp only: mult_less_cancel_left_pos)
  then have "a + 1 \<le> b" by simp
  then have "w * (a + 1) \<le> w * b" using assms(1) by (simp only: mult_le_cancel_left_pos)
  then show ?thesis unfolding x y by (simp add: distrib_left)
qed

lemma u64_mod_dvd: "w dvd 2 ^ 64 \<Longrightarrow> (u64 x mod w = 0) = (w dvd x)"
  by (simp add: u64_def mod_mod_cancel dvd_eq_mod_eq_0)

lemma s64_u64_plus: "s64 (u64 a + c) = s64 (a + c)"
  using s64_add_left [of "u64 a" c] s64_add_left [of a c] by (simp add: s64_u64)

lemma s64_u64_minus: "s64 (u64 a - c) = s64 (a - c)"
  using s64_u64_plus [of a "- c"] by simp

lemma s64_power_of_2:
  assumes "w dvd 2 ^ 64"
  shows "s64 (w * (u64 tp div w)) = s64 (tp - tp mod w)"
proof -
  have "w * (u64 tp div w) = u64 tp - u64 tp mod w"
    by (simp add: minus_mod_eq_mult_div)
  also have "u64 tp mod w = tp mod w" using assms by (simp add: u64_def mod_mod_cancel)
  finally show ?thesis by (simp add: s64_u64_minus)
qed

lemma seq_spans_Inl_right: "seq_spans x (Inl e) \<noteq> Inr s"
  by (cases x) simp_all

lemma seq_spans_Inr:
  "seq_spans x y = Inr s \<Longrightarrow> \<exists>s1 s2. x = Inr s1 \<and> y = Inr s2 \<and> s = s1 @ s2"
  by (cases x; cases y) auto

subsection \<open>The number of spans\<close>

text \<open>The recursive case with both ends on the same side of zero, with the
  conversions resolved.\<close>

lemma find_ranges_internal_compute:
  assumes "in64 bt" "in64 tp" "bt < tp" "0 \<le> bt \<or> tp < 0" "0 \<le> pw"
  shows "find_ranges_internal h bt tp pw =
     (if 2 ^ 63 \<le> tp - bt + 1 then Inl Undefined
      else
        let w = width_of (tp - bt + 1) in
        if bt = MINVAL h \<or> w dvd bt then
          seq_spans (Inr [(bt, s64 (bt + w - 1))]) (find_ranges_internal h (s64 (bt + w)) tp (pw - 1))
        else if tp = MAXVAL h \<or> w dvd (tp + 1) then
          seq_spans (Inr [(s64 (tp - w + 1), tp)]) (find_ranges_internal h bt (s64 (tp - w)) (pw - 1))
        else
          seq_spans (find_ranges_internal h bt (s64 (tp - tp mod w - 1)) (pw - 1))
                    (find_ranges_internal h (s64 (tp - tp mod w)) tp (pw - 1)))"
proof (cases "2 ^ 63 \<le> tp - bt + 1")
  case True
  with assms have "tp - bt + 1 = 2 ^ 63" by (auto simp: in64_def)
  then have neg: "s64 (tp - bt + 1) \<le> 0" by (simp add: s64_def)
  from assms(4) show ?thesis
  proof
    assume "0 \<le> bt"
    then have "\<not> bt < 0" by simp
    with neg assms(3,5) True show ?thesis
      by (subst find_ranges_internal.simps) (simp add: Let_def)
  next
    assume "tp < 0"
    then have "\<not> 0 \<le> tp" by simp
    with neg assms(3,5) True show ?thesis
      by (subst find_ranges_internal.simps) (simp add: Let_def)
  qed
next
  case False
  let ?n = "tp - bt + 1"
  let ?w = "width_of ?n"
  have n: "1 \<le> ?n" "?n \<le> 2 ^ 63" "in64 ?n" using assms False by (auto simp: in64_def)
  have wd: "?w dvd 2 ^ 64"
  proof -
    have "?w dvd 2 ^ 63" using n by (intro width_of_dvd) simp_all
    moreover have "(2::int) ^ 63 dvd 2 ^ 64" by (intro le_imp_power_dvd) simp
    ultimately show ?thesis by (rule dvd_trans)
  qed
  have c: "(tp < bt \<or> pw < 0) = False" "(tp = bt) = False" "(0 \<le> tp \<and> bt < 0) = False"
    "(?n \<le> 0) = False" "(2 ^ 63 \<le> ?n) = False"
    using assms False n(1) by auto
  have sn: "s64 ?n = ?n" using n(3) by (rule s64_id)
  have w2: "2 ^ dyad_loop (trunc_log2 (to_double ?n)) (to_double ?n) = ?w"
    by (simp add: width_of_def)
  have e1: "s64 (u64 bt + ?w - 1) = s64 (bt + ?w - 1)"
    using s64_u64_plus [of bt "?w - 1"] by (simp add: add_diff_eq)
  have e2: "s64 (u64 bt + ?w) = s64 (bt + ?w)" by (rule s64_u64_plus)
  have e3: "s64 (u64 tp - ?w + 1) = s64 (tp - ?w + 1)"
    using s64_u64_minus [of tp "?w - 1"] by (simp add: diff_diff_eq2 diff_add_eq)
  have e4: "s64 (u64 tp - ?w) = s64 (tp - ?w)" by (rule s64_u64_minus)
  have e5: "s64 (?w * (u64 tp div ?w)) = s64 (tp - tp mod ?w)" by (rule s64_power_of_2 [OF wd])
  have e6: "s64 (s64 (tp - tp mod ?w) - 1) = s64 (tp - tp mod ?w - 1)"
    using s64_add_left [of "tp - tp mod ?w" "- 1"] by simp
  have e7: "(u64 bt mod ?w = 0) = (?w dvd bt)" by (rule u64_mod_dvd [OF wd])
  have e8: "(u64 (tp + 1) mod ?w = 0) = (?w dvd (tp + 1))" by (rule u64_mod_dvd [OF wd])
  show ?thesis
    apply (subst find_ranges_internal.simps)
    apply (simp only: c if_False Let_def sn w2 e1 e2 e3 e4 e5 e6 e7 e8)
    done
qed


lemma find_ranges_internal_neg: "pw < 0 \<Longrightarrow> find_ranges_internal h bt tp pw = Inr []"
  by (subst find_ranges_internal.simps) simp

text \<open>Two requests that only arise when an end has wrapped around: they give
  no span, or run into the undefined width.\<close>

lemma find_ranges_internal_wrapped_low:
  assumes "0 \<le> tp" "in64 tp" "find_ranges_internal h (- (2 ^ 63)) tp pw = Inr s"
  shows "s = []"
proof (cases "pw < 1")
  case True
  show ?thesis
  proof (cases "pw < 0")
    case True
    with assms(3) show ?thesis by (simp add: find_ranges_internal_neg)
  next
    case False
    with True have "pw - 1 < 0" "0 \<le> pw" by simp_all
    with assms show ?thesis
      by (simp add: find_ranges_internal_zero_split find_ranges_internal_neg)
  qed
next
  case False
  then have p: "0 \<le> pw - 1" "0 \<le> pw" by simp_all
  have "find_ranges_internal h (- (2 ^ 63)) (- 1) (pw - 1) = Inl Undefined"
    by (subst find_ranges_internal_compute) (use p in \<open>simp_all add: in64_def\<close>)
  with assms p(2) show ?thesis
    by (simp add: find_ranges_internal_zero_split)
qed

lemma find_ranges_internal_wrapped_high:
  assumes "bt < 0" "in64 bt" "find_ranges_internal h bt (2 ^ 63 - 1) pw = Inr s"
  shows "s = []"
proof (cases "pw < 1")
  case True
  show ?thesis
  proof (cases "pw < 0")
    case True
    with assms(3) show ?thesis by (simp add: find_ranges_internal_neg)
  next
    case False
    with True have "pw - 1 < 0" "0 \<le> pw" by simp_all
    with assms show ?thesis
      by (simp add: find_ranges_internal_zero_split find_ranges_internal_neg)
  qed
next
  case False
  then have p: "0 \<le> pw - 1" "0 \<le> pw" by simp_all
  have "find_ranges_internal h 0 (2 ^ 63 - 1) (pw - 1) = Inl Undefined"
    by (subst find_ranges_internal_compute) (use p in \<open>simp_all add: in64_def\<close>)
  with assms p(2) seq_spans_Inl_right [of "find_ranges_internal h bt (- 1) (pw - 1)" Undefined s]
  show ?thesis
    by (simp add: find_ranges_internal_zero_split)
qed

text \<open>What the recursive call after an emitted span, or on one side of a split,
  can be: a call that gives nothing, or a call on a proper range with no
  wrap-around.\<close>

lemma after_left_span:
  assumes "0 < w" "w dvd 2 ^ 63" "w dvd bt" "in64 bt" "in64 tp" "bt \<le> tp"
    and "find_ranges_internal h (s64 (bt + w)) tp p = Inr s"
  shows "s = [] \<or> (s64 (bt + w) = bt + w \<and> in64 (bt + w) \<and> bt + w \<le> tp)"
proof -
  have "bt < 2 ^ 63" using assms(4) by (simp add: in64_def)
  from multiples_apart [OF assms(1,3,2) this] have le: "bt + w \<le> 2 ^ 63" .
  show ?thesis
  proof (cases "bt + w = 2 ^ 63")
    case True
    have "w \<le> 2 ^ 63" using assms(1,2) by (intro zdvd_imp_le) simp_all
    with True have "0 \<le> bt" by linarith
    with assms(6) have "0 \<le> tp" by simp
    moreover have "s64 (bt + w) = - (2 ^ 63)" unfolding True by (simp add: s64_def)
    ultimately show ?thesis
      using assms(5,7) find_ranges_internal_wrapped_low [of tp h p s] by simp
  next
    case False
    with le assms(1,4) have i: "in64 (bt + w)" by (simp add: in64_def)
    then have e: "s64 (bt + w) = bt + w" by (rule s64_id)
    show ?thesis
    proof (cases "bt + w \<le> tp")
      case True
      with i e show ?thesis by simp
    next
      case False
      with assms(7) e show ?thesis by (simp add: find_ranges_internal_empty)
    qed
  qed
qed

lemma after_right_span:
  assumes "0 < w" "w dvd 2 ^ 63" "w dvd (tp + 1)" "in64 bt" "in64 tp" "bt \<le> tp"
    and "find_ranges_internal h bt (s64 (tp - w)) p = Inr s"
  shows "s = [] \<or> (s64 (tp - w) = tp - w \<and> in64 (tp - w) \<and> bt \<le> tp - w)"
proof (cases "bt \<le> tp - w")
  case True
  with assms(1,4,5) have i: "in64 (tp - w)" by (simp add: in64_def)
  with True show ?thesis by (simp add: s64_id)
next
  case False
  then have lt: "tp - w < bt" by simp
  show ?thesis
  proof (cases "in64 (tp - w)")
    case True
    with lt assms(7) show ?thesis by (simp add: s64_id find_ranges_internal_empty)
  next
    case False
    with assms(1,5) have low: "tp - w < - (2 ^ 63)" by (simp add: in64_def)
    have d: "w dvd - (2 ^ 63)" using assms(2) by simp
    have "tp + 1 \<noteq> - (2 ^ 63)" using assms(5) by (simp add: in64_def)
    moreover have "- (2 ^ 63) \<le> tp + 1" using assms(5) by (simp add: in64_def)
    ultimately have "- (2 ^ 63) < tp + 1" by linarith
    from multiples_apart [OF assms(1) d assms(3) this] low
    have eq: "tp - w = - (2 ^ 63) - 1" by linarith
    have w63: "w \<le> 2 ^ 63" using assms(1,2) by (intro zdvd_imp_le) simp_all
    with eq have "tp < 0" by linarith
    with assms(6) have "bt < 0" by simp
    moreover have "s64 (tp - w) = 2 ^ 63 - 1" unfolding eq by (simp add: s64_def)
    ultimately show ?thesis
      using assms(4,7) find_ranges_internal_wrapped_high [of bt h p s] by simp
  qed
qed

lemma power_of_2_range:
  assumes "0 < w" "w dvd 2 ^ 63" "in64 tp"
  shows "in64 (tp - tp mod w)" "tp - tp mod w \<le> tp" "tp < tp - tp mod w + w" "w dvd (tp - tp mod w)"
proof -
  show le: "tp - tp mod w \<le> tp" using assms(1) by simp
  show lt: "tp < tp - tp mod w + w" using assms(1) pos_mod_bound [of w tp] by linarith
  show dv: "w dvd (tp - tp mod w)" by simp
  have d: "w dvd - (2 ^ 63)" using assms(2) by simp
  have "- (2 ^ 63) \<le> tp - tp mod w"
  proof (rule ccontr)
    assume "\<not> - (2 ^ 63) \<le> tp - tp mod w"
    then have "tp - tp mod w < - (2 ^ 63)" by simp
    from multiples_apart [OF assms(1) dv d this] lt assms(3) show False by (simp add: in64_def)
  qed
  with le assms(3) show "in64 (tp - tp mod w)" by (simp add: in64_def)
qed

lemma split_left_part:
  assumes "0 < w" "w dvd 2 ^ 63" "in64 bt" "in64 tp" "bt \<le> tp"
    and "find_ranges_internal h bt (s64 (tp - tp mod w - 1)) p = Inr s"
  shows "s = [] \<or> (s64 (tp - tp mod w - 1) = tp - tp mod w - 1 \<and> in64 (tp - tp mod w - 1)
                   \<and> bt \<le> tp - tp mod w - 1)"
proof -
  note r = power_of_2_range [OF assms(1,2,4)]
  show ?thesis
  proof (cases "tp - tp mod w = - (2 ^ 63)")
    case True
    have w63: "w \<le> 2 ^ 63" using assms(1,2) by (intro zdvd_imp_le) simp_all
    with r(3) True have "tp < 0" by linarith
    with assms(5) have "bt < 0" by simp
    moreover have "s64 (tp - tp mod w - 1) = 2 ^ 63 - 1" unfolding True by (simp add: s64_def)
    ultimately show ?thesis
      using assms(3,6) find_ranges_internal_wrapped_high [of bt h p s] by simp
  next
    case False
    with r(1,2) assms(4) have i: "in64 (tp - tp mod w - 1)" by (simp add: in64_def)
    then have e: "s64 (tp - tp mod w - 1) = tp - tp mod w - 1" by (rule s64_id)
    show ?thesis
    proof (cases "bt \<le> tp - tp mod w - 1")
      case True
      with i e show ?thesis by simp
    next
      case False
      with assms(6) e show ?thesis by (simp add: find_ranges_internal_empty)
    qed
  qed
qed


lemma width_of_power_le:
  assumes "1 \<le> n" "width_of n \<le> 2 ^ k"
  shows "\<exists>e\<le>k. width_of n = 2 ^ e"
proof -
  have "(2::int) ^ ilog2 (to_double n) \<le> 2 ^ k" using assms by (simp add: width_of_eq)
  then have "ilog2 (to_double n) \<le> k" by (simp only: power_increasing_iff [of "2::int"])
  then show ?thesis using assms(1) by (auto simp: width_of_eq)
qed

lemma width_of_rest:
  assumes "1 \<le> n" "width_of n = 2 ^ e" "1 \<le> n - width_of n"
  shows "width_of (n - width_of n) \<le> 2 ^ e"
proof -
  have "n - width_of n \<le> 2 ^ e" using width_of_less [OF assms(1)] assms(2) by simp
  with assms(3) show ?thesis by (rule width_of_le_power)
qed

lemma dyadic_minval:
  assumes "dyadic_h h" "bt = MINVAL h" "bt < tp" "0 \<le> bt \<or> tp < 0"
  shows "width_of (tp - bt + 1) dvd bt"
proof -
  from assms(1,2) obtain k where k: "bt = - (2 ^ k)" by (auto simp: dyadic_h_def)
  then have "bt < 0" by simp
  with assms(4) have "tp < 0" by simp
  then have "tp - bt + 1 \<le> 2 ^ k" using k by simp
  moreover have "1 \<le> tp - bt + 1" using assms(3) by simp
  ultimately have "width_of (tp - bt + 1) dvd 2 ^ k" by (intro width_of_dvd)
  then show ?thesis unfolding k by simp
qed

lemma dyadic_maxval:
  assumes "dyadic_h h" "tp = MAXVAL h" "bt < tp" "0 \<le> bt \<or> tp < 0"
  shows "width_of (tp - bt + 1) dvd (tp + 1)"
proof -
  from assms(1,2) obtain k where k: "tp = 2 ^ k - 1" by (auto simp: dyadic_h_def)
  then have "0 \<le> tp" by simp
  with assms(4) have "0 \<le> bt" by simp
  then have "tp - bt + 1 \<le> 2 ^ k" using k by simp
  moreover have "1 \<le> tp - bt + 1" using assms(3) by simp
  ultimately have "width_of (tp - bt + 1) dvd 2 ^ k" by (intro width_of_dvd)
  then show ?thesis unfolding k by simp
qed

lemma power_dvd_63: "k \<le> 63 \<Longrightarrow> (2::int) ^ k dvd 2 ^ 63"
  by (rule le_imp_power_dvd)

lemma left_anchored_count:
  "k \<le> 63 \<Longrightarrow> left_anchored (2 ^ k) bt tp \<Longrightarrow> - 1 \<le> pw \<Longrightarrow>
   find_ranges_internal h bt tp pw = Inr s \<Longrightarrow> int (length s) \<le> pw + 1"
proof (induction "nat (pw + 1)" arbitrary: pw k bt tp s)
  case 0
  then have "pw < 0" by simp
  with 0 show ?case by (simp add: find_ranges_internal_neg)
next
  case (Suc m)
  then have pw: "0 \<le> pw" by simp
  from Suc.prems(2) have a: "in64 bt" "in64 tp" "bt \<le> tp" "0 \<le> bt \<or> tp < 0"
    "2 ^ k dvd bt" "width_of (tp - bt + 1) \<le> 2 ^ k"
    by (simp_all add: left_anchored_def dvd_eq_mod_eq_0)
  show ?case
  proof (cases "bt = tp")
    case True
    with Suc.prems(4) pw show ?thesis by (auto simp: find_ranges_internal_base)
  next
    case False
    with a(3) have lt: "bt < tp" by simp
    let ?n = "tp - bt + 1"
    let ?w = "width_of ?n"
    have n1: "1 \<le> ?n" using lt by simp
    from width_of_power_le [OF n1 a(6)] obtain e where e: "e \<le> k" "?w = 2 ^ e" by blast
    have wpos: "0 < ?w" using e by simp
    have w63: "?w dvd 2 ^ 63" using e Suc.prems(1) unfolding e(2) by (intro le_imp_power_dvd) simp
    have wb: "?w dvd bt"
    proof -
      have "?w dvd 2 ^ k" unfolding e(2) using e(1) by (rule le_imp_power_dvd)
      then show ?thesis using a(5) by (rule dvd_trans)
    qed
    have big: "\<not> 2 ^ 63 \<le> ?n"
    proof
      assume "2 ^ 63 \<le> ?n"
      with Suc.prems(4) show False
        by (simp add: find_ranges_internal_compute [OF a(1,2) lt a(4) pw])
    qed
    from Suc.prems(4) big wb
    have "seq_spans (Inr [(bt, s64 (bt + ?w - 1))])
            (find_ranges_internal h (s64 (bt + ?w)) tp (pw - 1)) = Inr s"
      by (simp add: find_ranges_internal_compute [OF a(1,2) lt a(4) pw] Let_def)
    from seq_spans_Inr [OF this] obtain s' where
      rec: "find_ranges_internal h (s64 (bt + ?w)) tp (pw - 1) = Inr s'"
      and s: "s = (bt, s64 (bt + ?w - 1)) # s'" by auto
    from after_left_span [OF wpos w63 wb a(1,2,3) rec]
    show ?thesis
    proof
      assume "s' = []"
      with s pw show ?thesis by simp
    next
      assume p: "s64 (bt + ?w) = bt + ?w \<and> in64 (bt + ?w) \<and> bt + ?w \<le> tp"
      have r: "tp - (bt + ?w) + 1 = ?n - ?w" by simp
      have "width_of (?n - ?w) \<le> 2 ^ e" using p by (intro width_of_rest [OF n1 e(2)]) simp
      moreover have "(bt + ?w) mod ?w = 0" using wb by simp
      ultimately have la: "left_anchored (2 ^ e) (bt + ?w) tp"
        using p a(2,4) wpos unfolding left_anchored_def r e(2) [symmetric] by auto
      have "m = nat (pw - 1 + 1)" using Suc.hyps(2) by simp
      moreover have "e \<le> 63" using e(1) Suc.prems(1) by simp
      moreover have "- 1 \<le> pw - 1" using pw by simp
      moreover have "find_ranges_internal h (bt + ?w) tp (pw - 1) = Inr s'" using rec p by simp
      ultimately have "int (length s') \<le> pw - 1 + 1" using la by (intro Suc.hyps(1))
      with s show ?thesis by simp
    qed
  qed
qed

lemma right_anchored_count:
  "dyadic_h h \<Longrightarrow> k \<le> 63 \<Longrightarrow> right_anchored (2 ^ k) bt tp \<Longrightarrow> - 1 \<le> pw \<Longrightarrow>
   find_ranges_internal h bt tp pw = Inr s \<Longrightarrow> int (length s) \<le> pw + 1"
proof (induction "nat (pw + 1)" arbitrary: pw k bt tp s)
  case 0
  then have "pw < 0" by simp
  with 0 show ?case by (simp add: find_ranges_internal_neg)
next
  case (Suc m)
  then have pw: "0 \<le> pw" by simp
  from Suc.prems(3) have a: "in64 bt" "in64 tp" "bt \<le> tp" "0 \<le> bt \<or> tp < 0"
    "2 ^ k dvd (tp + 1)" "width_of (tp - bt + 1) \<le> 2 ^ k"
    by (simp_all add: right_anchored_def dvd_eq_mod_eq_0)
  show ?case
  proof (cases "bt = tp")
    case True
    with Suc.prems(5) pw show ?thesis by (auto simp: find_ranges_internal_base)
  next
    case False
    with a(3) have lt: "bt < tp" by simp
    let ?n = "tp - bt + 1"
    let ?w = "width_of ?n"
    have n1: "1 \<le> ?n" using lt by simp
    from width_of_power_le [OF n1 a(6)] obtain e where e: "e \<le> k" "?w = 2 ^ e" by blast
    have e63: "e \<le> 63" using e(1) Suc.prems(2) by simp
    have wpos: "0 < ?w" using e by simp
    have w63: "?w dvd 2 ^ 63" unfolding e(2) using e63 by (rule le_imp_power_dvd)
    have wt: "?w dvd (tp + 1)"
    proof -
      have "?w dvd 2 ^ k" unfolding e(2) using e(1) by (rule le_imp_power_dvd)
      then show ?thesis using a(5) by (rule dvd_trans)
    qed
    have big: "\<not> 2 ^ 63 \<le> ?n"
    proof
      assume "2 ^ 63 \<le> ?n"
      with Suc.prems(5) show False
        by (simp add: find_ranges_internal_compute [OF a(1,2) lt a(4) pw])
    qed
    have mn: "bt = MINVAL h \<Longrightarrow> ?w dvd bt"
      using dyadic_minval [OF Suc.prems(1) _ lt a(4)] by simp
    have m1: "m = nat (pw - 1 + 1)" using Suc.hyps(2) by simp
    have p1: "- 1 \<le> pw - 1" using pw by simp
    show ?thesis
    proof (cases "?w dvd bt")
      case True
      from Suc.prems(5) big True
      have "seq_spans (Inr [(bt, s64 (bt + ?w - 1))])
              (find_ranges_internal h (s64 (bt + ?w)) tp (pw - 1)) = Inr s"
        by (simp add: find_ranges_internal_compute [OF a(1,2) lt a(4) pw] Let_def)
      from seq_spans_Inr [OF this] obtain s' where
        rec: "find_ranges_internal h (s64 (bt + ?w)) tp (pw - 1) = Inr s'"
        and s: "s = (bt, s64 (bt + ?w - 1)) # s'" by auto
      from after_left_span [OF wpos w63 True a(1,2,3) rec]
      show ?thesis
      proof
        assume "s' = []"
        with s pw show ?thesis by simp
      next
        assume p: "s64 (bt + ?w) = bt + ?w \<and> in64 (bt + ?w) \<and> bt + ?w \<le> tp"
        have r: "tp - (bt + ?w) + 1 = ?n - ?w" by simp
        have "width_of (?n - ?w) \<le> 2 ^ e" using p by (intro width_of_rest [OF n1 e(2)]) simp
        moreover have "(tp + 1) mod ?w = 0" using wt by simp
        ultimately have ra: "right_anchored (2 ^ e) (bt + ?w) tp"
          using p a(2,4) wpos unfolding right_anchored_def r e(2) [symmetric] by auto
        have "find_ranges_internal h (bt + ?w) tp (pw - 1) = Inr s'" using rec p by simp
        with m1 e63 p1 ra Suc.prems(1) have "int (length s') \<le> pw - 1 + 1"
          by (intro Suc.hyps(1))
        with s show ?thesis by simp
      qed
    next
      case False
      with mn have nm: "bt \<noteq> MINVAL h" by blast
      from Suc.prems(5) big False nm wt
      have "seq_spans (Inr [(s64 (tp - ?w + 1), tp)])
              (find_ranges_internal h bt (s64 (tp - ?w)) (pw - 1)) = Inr s"
        by (simp add: find_ranges_internal_compute [OF a(1,2) lt a(4) pw] Let_def)
      from seq_spans_Inr [OF this] obtain s' where
        rec: "find_ranges_internal h bt (s64 (tp - ?w)) (pw - 1) = Inr s'"
        and s: "s = (s64 (tp - ?w + 1), tp) # s'" by auto
      from after_right_span [OF wpos w63 wt a(1,2,3) rec]
      show ?thesis
      proof
        assume "s' = []"
        with s pw show ?thesis by simp
      next
        assume p: "s64 (tp - ?w) = tp - ?w \<and> in64 (tp - ?w) \<and> bt \<le> tp - ?w"
        have r: "tp - ?w - bt + 1 = ?n - ?w" "tp - ?w + 1 = tp + 1 - ?w" by simp_all
        have "width_of (?n - ?w) \<le> 2 ^ e" using p by (intro width_of_rest [OF n1 e(2)]) simp
        moreover have "(tp + 1 - ?w) mod ?w = 0" using wt by simp
        ultimately have ra: "right_anchored (2 ^ e) bt (tp - ?w)"
          using p a(1,4) wpos unfolding right_anchored_def r e(2) [symmetric] by auto
        have "find_ranges_internal h bt (tp - ?w) (pw - 1) = Inr s'" using rec p by simp
        with m1 e63 p1 ra Suc.prems(1) have "int (length s') \<le> pw - 1 + 1"
          by (intro Suc.hyps(1))
        with s show ?thesis by simp
      qed
    qed
  qed
qed


lemma find_ranges_internal_count:
  assumes "dyadic_h h" "in64 bt" "in64 tp" "0 \<le> pw" "find_ranges_internal h bt tp pw = Inr s"
  shows "int (length s) \<le> 2 * pw + 1"
proof -
  have k63: "(63::nat) \<le> 63" by simp
  have p1: "- 1 \<le> pw - 1" "- 1 \<le> pw" using assms(4) by simp_all
  consider "tp < bt" | "bt = tp" | "bt < 0" "0 \<le> tp" | "bt < tp" "0 \<le> bt \<or> tp < 0"
    by linarith
  then show ?thesis
  proof cases
    case 1
    with assms(4,5) show ?thesis by (simp add: find_ranges_internal_empty)
  next
    case 2
    with assms(4,5) show ?thesis by (auto simp: find_ranges_internal_base)
  next
    case 3
    from assms(5) have "seq_spans (find_ranges_internal h bt (- 1) (pw - 1))
        (find_ranges_internal h 0 tp (pw - 1)) = Inr s"
      by (simp add: find_ranges_internal_zero_split [OF 3 assms(4)])
    from seq_spans_Inr [OF this] obtain s1 s2 where
      r1: "find_ranges_internal h bt (- 1) (pw - 1) = Inr s1" and
      r2: "find_ranges_internal h 0 tp (pw - 1) = Inr s2" and s: "s = s1 @ s2" by blast
    have "1 \<le> - 1 - bt + 1" "- 1 - bt + 1 \<le> 2 ^ 63" using 3(1) assms(2) by (simp_all add: in64_def)
    then have "width_of (- 1 - bt + 1) \<le> 2 ^ 63" by (rule width_of_le_power)
    then have "right_anchored (2 ^ 63) bt (- 1)"
      using assms(2) 3(1) by (simp add: right_anchored_def in64_def)
    from right_anchored_count [OF assms(1) k63 this p1(1) r1] have l1: "int (length s1) \<le> pw" by simp
    have "1 \<le> tp - 0 + 1" "tp - 0 + 1 \<le> 2 ^ 63" using 3(2) assms(3) by (simp_all add: in64_def)
    then have "width_of (tp - 0 + 1) \<le> 2 ^ 63" by (rule width_of_le_power)
    then have "left_anchored (2 ^ 63) 0 tp"
      using assms(3) 3(2) by (simp add: left_anchored_def in64_def)
    from left_anchored_count [OF k63 this p1(1) r2] have l2: "int (length s2) \<le> pw" by simp
    from l1 l2 s show ?thesis by simp
  next
    case 4
    let ?n = "tp - bt + 1"
    let ?w = "width_of ?n"
    have n1: "1 \<le> ?n" using 4(1) by simp
    have big: "\<not> 2 ^ 63 \<le> ?n"
    proof
      assume "2 ^ 63 \<le> ?n"
      with assms(5) show False
        by (simp add: find_ranges_internal_compute [OF assms(2,3) 4 assms(4)])
    qed
    then have "?n \<le> 2 ^ 63" by simp
    from width_of_power [OF n1 this] obtain e where e: "e \<le> 63" "?w = 2 ^ e" by blast
    have wpos: "0 < ?w" using e by simp
    have w63: "?w dvd 2 ^ 63" unfolding e(2) using e(1) by (rule le_imp_power_dvd)
    show ?thesis
    proof (cases "?w dvd bt")
      case True
      then have "left_anchored (2 ^ e) bt tp"
        using assms(2,3) 4 by (simp add: left_anchored_def e(2) [symmetric] dvd_eq_mod_eq_0)
      from left_anchored_count [OF e(1) this p1(2) assms(5)] assms(4) show ?thesis by simp
    next
      case nb: False
      show ?thesis
      proof (cases "?w dvd (tp + 1)")
        case True
        then have "right_anchored (2 ^ e) bt tp"
          using assms(2,3) 4 by (simp add: right_anchored_def e(2) [symmetric] dvd_eq_mod_eq_0)
        from right_anchored_count [OF assms(1) e(1) this p1(2) assms(5)] assms(4)
        show ?thesis by simp
      next
        case nt: False
        have nm: "bt \<noteq> MINVAL h" using dyadic_minval [OF assms(1) _ 4] nb by blast
        have nx: "tp \<noteq> MAXVAL h" using dyadic_maxval [OF assms(1) _ 4] nt by blast
        let ?P = "tp - tp mod ?w"
        from assms(5) big nb nt nm nx
        have "seq_spans (find_ranges_internal h bt (s64 (?P - 1)) (pw - 1))
                (find_ranges_internal h (s64 ?P) tp (pw - 1)) = Inr s"
          by (simp add: find_ranges_internal_compute [OF assms(2,3) 4 assms(4)] Let_def)
        from seq_spans_Inr [OF this] obtain s1 s2 where
          r1: "find_ranges_internal h bt (s64 (?P - 1)) (pw - 1) = Inr s1" and
          r2: "find_ranges_internal h (s64 ?P) tp (pw - 1) = Inr s2" and s: "s = s1 @ s2" by blast
        note r = power_of_2_range [OF wpos w63 assms(3)]
        have bt_le: "bt \<le> tp" using 4(1) by simp
        have sP: "s64 ?P = ?P" using r(1) by (rule s64_id)
        have q1: "1 \<le> tp - ?P + 1" using r(2) by linarith
        have q2: "tp - ?P + 1 \<le> ?w" using r(3) by linarith
        have wr: "width_of (tp - ?P + 1) \<le> ?w"
          by (rule width_of_le_power [of _ e, folded e(2), OF q1 q2])
        have sg: "0 \<le> ?P \<or> tp < 0"
        proof (cases "0 \<le> tp")
          case True
          then have "tp mod ?w \<le> tp" by (rule zmod_le_nonneg_dividend)
          then show ?thesis by simp
        next
          case False
          then show ?thesis by simp
        qed
        have pm: "?P mod ?w = 0" by simp
        have "left_anchored (2 ^ e) ?P tp"
          unfolding left_anchored_def e(2) [symmetric]
          using r(1,2) assms(3) wr sg pm by blast
        from left_anchored_count [OF e(1) this p1(1)] r2 sP
        have l2: "int (length s2) \<le> pw" by simp
        have l1: "int (length s1) \<le> pw"
          using split_left_part [OF wpos w63 assms(2,3) bt_le r1]
        proof
          assume "s1 = []"
          with assms(4) show ?thesis by simp
        next
          assume p: "s64 (?P - 1) = ?P - 1 \<and> in64 (?P - 1) \<and> bt \<le> ?P - 1"
          have q3: "1 \<le> ?P - 1 - bt + 1" using p by linarith
          have q4: "?P - 1 - bt + 1 \<le> ?n" using r(2) by linarith
          have w1: "width_of (?P - 1 - bt + 1) \<le> ?w" using q3 q4 by (rule width_of_mono)
          have s1: "0 \<le> bt \<or> ?P - 1 < 0" using 4(2) r(2) by linarith
          have m1: "(?P - 1 + 1) mod ?w = 0" by simp
          have "right_anchored (2 ^ e) bt (?P - 1)"
            unfolding right_anchored_def e(2) [symmetric]
            using p assms(2) w1 s1 m1 by blast
          from right_anchored_count [OF assms(1) e(1) this p1(1)] r1 p show ?thesis by simp
        qed
        from l1 l2 s show ?thesis by simp
      qed
    qed
  qed
qed

lemma dyadic_h0: "dyadic_h h0"
  unfolding dyadic_h_def h0_def by (intro bexI [of _ 62]) simp_all

text \<open>
  Every span list that \<open>find_ranges\<close> returns for a request \<open>bot \<le> top\<close> of
  \<open>int64\<close> bounds has at most \<open>2 * RANGES\<close> spans, 128 for the 64 ranges. (The
  domain bounds of the header are those of a two's-complement type, so that the tests
  \<open>bot == MINVAL\<close> and \<open>top == MAXVAL\<close> only hold for aligned ends.)
\<close>

theorem find_ranges_span_count:
  assumes "dyadic_h h" and "in64 bt" and "in64 tp" and "bt \<le> tp"
    and "find_ranges h bt tp = Inr spans"
  shows "length spans \<le> 2 * RANGES"
proof -
  have "int (length spans) \<le> 2 * (int RANGES - 1) + 1"
    using assms(5) unfolding find_ranges_def
    by (intro find_ranges_internal_count [OF assms(1,2,3)]) (simp_all add: RANGES_def LONGBITS_def)
  then show ?thesis by simp
qed

theorem find_ranges_span_count_witness:
  "dyadic_h h0 \<and> in64 (- 5) \<and> in64 1000 \<and> (- 5 :: int) \<le> 1000
   \<and> find_ranges h0 (- 5) 1000 =
       Inr [(- 4, - 1), (- 5, - 5), (0, 511), (512, 767), (768, 895), (896, 959), (960, 991),
            (992, 999), (1000, 1000)]
   \<and> length [(- 4, - 1), (- 5, - 5), (0, 511), (512, 767), (768, 895), (896, 959), (960, 991),
            (992, 999), (1000 :: int, 1000 :: int)] \<le> 2 * RANGES"
proof -
  have a: "in64 (- 5)" "in64 1000" "(- 5 :: int) \<le> 1000" by (simp_all add: in64_def)
  have b: "find_ranges h0 (- 5) 1000 =
       Inr [(- 4, - 1), (- 5, - 5), (0, 511), (512, 767), (768, 895), (896, 959), (960, 991),
            (992, 999), (1000, 1000)]"
    by code_simp
  show ?thesis
    using dyadic_h0 a b find_ranges_span_count [OF dyadic_h0 a b] by simp
qed

subsection \<open>Requests that return, and requests that do not\<close>

text \<open>
  On the half of the \<open>int64\<close> domain around zero, from \<open>-2^62\<close> to
  \<open>2^62 - 1\<close>, no width and no bound of a recursive call leaves \<open>int64\<close>:
  every request returns its span list, and the list has at most \<open>2 * RANGES\<close>
  spans.
\<close>

lemma multiple_below:
  fixes w :: int
  assumes "0 < w" "w dvd m" "m \<le> tp"
  shows "m \<le> tp - tp mod w"
proof -
  have "m div w \<le> tp div w" using assms(3,1) by (rule zdiv_mono1)
  then have "w * (m div w) \<le> w * (tp div w)" using assms(1) by (simp only: mult_le_cancel_left_pos)
  moreover have "w * (m div w) = m" using assms(2) by simp
  moreover have "tp - tp mod w = w * (tp div w)" by (simp add: minus_mod_eq_mult_div)
  ultimately show ?thesis by simp
qed

lemma find_ranges_internal_returns:
  "- (2 ^ 62) \<le> bt \<Longrightarrow> bt < 2 ^ 63 \<Longrightarrow> - (2 ^ 63) \<le> tp \<Longrightarrow> tp < 2 ^ 62 \<Longrightarrow>
   \<exists>s. find_ranges_internal h bt tp pw = Inr s"
proof (induction "nat (pw + 1)" arbitrary: pw bt tp)
  case 0
  then have "pw < 0" by simp
  then show ?case by (simp add: find_ranges_internal_neg)
next
  case (Suc m)
  then have pw: "0 \<le> pw" and m: "m = nat (pw - 1 + 1)" by simp_all
  have ib: "in64 bt" using Suc.prems(1,2) by (simp add: in64_def)
  have it: "in64 tp" using Suc.prems(3,4) by (simp add: in64_def)
  have p63: "(2::int) ^ 63 = 2 ^ 62 + 2 ^ 62" by simp
  consider "tp < bt" | "bt = tp" | "bt < 0" "0 \<le> tp" | "bt < tp" "0 \<le> bt \<or> tp < 0"
    by linarith
  then show ?case
  proof cases
    case 1
    then show ?thesis by (simp add: find_ranges_internal_empty)
  next
    case 2
    with pw show ?thesis by (simp add: find_ranges_internal_base)
  next
    case 3
    from Suc.hyps(1) [OF m Suc.prems(1,2), of "- 1"]
    obtain s1 where s1: "find_ranges_internal h bt (- 1) (pw - 1) = Inr s1" by auto
    from Suc.hyps(1) [OF m _ _ Suc.prems(3,4), of 0]
    obtain s2 where s2: "find_ranges_internal h 0 tp (pw - 1) = Inr s2" by auto
    show ?thesis by (simp add: find_ranges_internal_zero_split [OF 3 pw] s1 s2)
  next
    case 4
    let ?n = "tp - bt + 1"
    let ?w = "width_of ?n"
    let ?P = "tp - tp mod ?w"
    have n1: "1 \<le> ?n" using 4(1) by simp
    have n62: "?n \<le> 2 ^ 62" using 4(2) Suc.prems(1,4) by linarith
    have big: "\<not> 2 ^ 63 \<le> ?n" using n62 by simp
    from width_of_power [OF n1 n62] obtain e where e: "e \<le> 62" "?w = 2 ^ e" by blast
    have wpos: "0 < ?w" using e by simp
    have w62: "?w \<le> 2 ^ 62" unfolding e(2) using e(1) by (intro power_increasing) simp_all
    have wd: "?w dvd - (2 ^ 62)"
    proof -
      have "(2::int) ^ e dvd 2 ^ 62" using e(1) by (rule le_imp_power_dvd)
      then show ?thesis unfolding e(2) by simp
    qed
    have l: "\<exists>s. find_ranges_internal h (s64 (bt + ?w)) tp (pw - 1) = Inr s"
    proof -
      have a: "- (2 ^ 62) \<le> bt + ?w" "bt + ?w < 2 ^ 63" using wpos w62 Suc.prems(1,4) 4(1) p63 by linarith+
      then have "s64 (bt + ?w) = bt + ?w" by (intro s64_id) (simp add: in64_def)
      with Suc.hyps(1) [OF m a Suc.prems(3,4)] show ?thesis by simp
    qed
    have r: "\<exists>s. find_ranges_internal h bt (s64 (tp - ?w)) (pw - 1) = Inr s"
    proof -
      have a: "- (2 ^ 63) \<le> tp - ?w" "tp - ?w < 2 ^ 62" using wpos w62 Suc.prems(1,4) 4(1) p63 by linarith+
      then have "s64 (tp - ?w) = tp - ?w" by (intro s64_id) (simp add: in64_def)
      with Suc.hyps(1) [OF m Suc.prems(1,2) a] show ?thesis by simp
    qed
    have P: "- (2 ^ 62) \<le> ?P" "?P \<le> tp"
    proof -
      have "- (2 ^ 62) \<le> tp" using Suc.prems(1) 4(1) by linarith
      with wpos wd show "- (2 ^ 62) \<le> ?P" by (rule multiple_below)
      show "?P \<le> tp" using wpos by simp
    qed
    have s1: "\<exists>s. find_ranges_internal h bt (s64 (?P - 1)) (pw - 1) = Inr s"
    proof -
      have a: "- (2 ^ 63) \<le> ?P - 1" "?P - 1 < 2 ^ 62" using P Suc.prems(4) p63 by linarith+
      then have "s64 (?P - 1) = ?P - 1" by (intro s64_id) (simp add: in64_def)
      with Suc.hyps(1) [OF m Suc.prems(1,2) a] show ?thesis by simp
    qed
    have s2: "\<exists>s. find_ranges_internal h (s64 ?P) tp (pw - 1) = Inr s"
    proof -
      have a: "- (2 ^ 62) \<le> ?P" "?P < 2 ^ 63" using P Suc.prems(4) p63 by linarith+
      then have "s64 ?P = ?P" by (intro s64_id) (simp add: in64_def)
      with Suc.hyps(1) [OF m a Suc.prems(3,4)] show ?thesis by simp
    qed
    from l r s1 s2 big show ?thesis
      unfolding find_ranges_internal_compute [OF ib it 4 pw] Let_def by auto
  qed
qed

lemma find_ranges_halved_domain:
  assumes "dyadic_h h" and "- (2 ^ 62) \<le> bt" and "bt \<le> tp" and "tp < 2 ^ 62"
  shows "\<exists>spans. find_ranges h bt tp = Inr spans \<and> length spans \<le> 2 * RANGES"
proof -
  have p63: "(2::int) ^ 63 = 2 ^ 62 + 2 ^ 62" by simp
  have a: "bt < 2 ^ 63" "- (2 ^ 63) \<le> tp" using assms(2,3,4) p63 by linarith+
  from find_ranges_internal_returns [OF assms(2) a assms(4), of h "int RANGES - 1"]
  obtain s where s: "find_ranges_internal h bt tp (int RANGES - 1) = Inr s" by blast
  have ib: "in64 bt" "in64 tp" using assms(2,3,4) a by (simp_all add: in64_def)
  have "int (length s) \<le> 2 * (int RANGES - 1) + 1"
    using assms(1) ib _ s by (rule find_ranges_internal_count) (simp add: RANGES_def LONGBITS_def)
  then have "length s \<le> 2 * RANGES" by simp
  with s show ?thesis by (simp add: find_ranges_def)
qed

text \<open>
  C7. The bound of \<open>2 * RANGES\<close> spans is for every request \<open>bot \<le> top\<close> of
  \<open>int64\<close> bounds. A request that reaches an end of \<open>int64\<close> gets no span list
  at all. For \<open>[0, 2^63 - 1]\<close> the width \<open>top - bot + 1\<close> is \<open>2^63\<close>, which
  \<open>int64\<close> does not hold. For \<open>[2^63 - 2, 2^63 - 1]\<close> the span of width 2 is
  emitted and the rest starts at \<open>bot + width\<close>, which wraps to \<open>-2^63\<close>; the
  rest is then split at zero into \<open>[-2^63, -1]\<close> and \<open>[0, 2^63 - 1]\<close>, of width
  \<open>2^63\<close> again. The whole domain \<open>[-2^63, 2^63 - 1]\<close> is split at zero into the
  same two halves. This holds whatever the constants of the header are.
\<close>

theorem find_ranges_width_overflows:
  "find_ranges h 0 (2 ^ 63 - 1) = Inl Undefined
   \<and> find_ranges h (2 ^ 63 - 2) (2 ^ 63 - 1) = Inl Undefined
   \<and> find_ranges h (- (2 ^ 63)) (2 ^ 63 - 1) = Inl Undefined"
proof -
  have p: "(0::int) \<le> int RANGES - 1" "(0::int) \<le> int RANGES - 1 - 1" "(0::int) \<le> int RANGES - 1 - 1 - 1"
    by (simp_all add: RANGES_def LONGBITS_def)
  have a: "find_ranges_internal h 0 (2 ^ 63 - 1) pw = Inl Undefined" if "0 \<le> pw" for pw
    by (subst find_ranges_internal_compute) (use that in \<open>simp_all add: in64_def\<close>)
  have b: "find_ranges_internal h (- (2 ^ 63)) (- 1) pw = Inl Undefined" if "0 \<le> pw" for pw
    by (subst find_ranges_internal_compute) (use that in \<open>simp_all add: in64_def\<close>)
  have c: "find_ranges_internal h (- (2 ^ 63)) (2 ^ 63 - 1) pw = Inl Undefined" if "1 \<le> pw" for pw
  proof -
    have "0 \<le> pw - 1" "0 \<le> pw" using that by simp_all
    from b [OF this(1)] this(2) show ?thesis
      by (simp add: find_ranges_internal_zero_split)
  qed
  have w: "width_of 2 = 2" by (simp add: width_of_exact ilog2_2)
  have s: "s64 9223372036854775808 = - 9223372036854775808" by (simp add: s64_def)
  have c62: "find_ranges_internal h (- 9223372036854775808) 9223372036854775807 62 = Inl Undefined"
    using c [of 62] by simp
  have d: "find_ranges_internal h (2 ^ 63 - 2) (2 ^ 63 - 1) (int RANGES - 1) = Inl Undefined"
    by (subst find_ranges_internal_compute)
       (simp_all add: in64_def p w s c62 Let_def RANGES_def LONGBITS_def)
  show ?thesis using a [OF p(1)] c [of "int RANGES - 1"] d
    by (simp add: find_ranges_def RANGES_def LONGBITS_def)
qed

subsection \<open>A request that is answered with a wider span\<close>

text \<open>
  C1 fails on the code. For the request \<open>[0, 2^54 - 2]\<close> the width
  \<open>2^54 - 1\<close> is converted to the double \<open>2^54\<close>; \<open>log2\<close> gives 54 and the
  correcting loop, which compares in \<open>double\<close>, leaves it. The only span produced is
  \<open>[0, 2^54 - 1]\<close>, which reaches past the top of the request. This holds whatever
  the header's constants are.
\<close>

theorem find_ranges_overshoots:
  "find_ranges h 0 (2 ^ 54 - 2) = Inr [(0, 2 ^ 54 - 1)]"
proof -
  have i: "in64 0" "in64 18014398509481982" "(0::int) < 18014398509481982" "0 \<le> (0::int) \<or> (18014398509481982::int) < 0"
    "(0::int) \<le> 63"
    by (simp_all add: in64_def)
  have w: "width_of 18014398509481983 = 18014398509481984"
    by code_simp
  have "find_ranges_internal h 0 18014398509481982 63 = Inr [(0, 18014398509481983)]"
    by (subst find_ranges_internal_compute [OF i])
       (simp add: w Let_def s64_def find_ranges_internal_empty)
  then show ?thesis by (simp add: find_ranges_def RANGES_def LONGBITS_def)
qed

subsection \<open>The centile search\<close>






subsection \<open>Rounding to nearest\<close>







subsection \<open>The binary exponent of a quotient\<close>





subsection \<open>The rounded quotient\<close>






subsection \<open>Centiles are monotone\<close>







subsection \<open>The equi-width histogram\<close>








end
